theory Spec2Isabelle
  imports Main "HOL-Library.Multiset"
begin

section \<open>Data model (client.go)\<close>

type_synonym path = string
type_synonym bytes = string

text \<open>
  Go \<open>error\<close> values. \<open>ErrLib\<close> stands for an error produced by a library call
  (net/http, encoding/json, os, io); \<open>ErrStatus\<close> is the error built in \<open>do\<close> and
  \<open>DownloadAttachment\<close> for a status other than 200; the remaining constructors are the
  \<open>fmt.Errorf("...: %w", err)\<close> wrappers of main.go, each carrying the record ID it formats.
\<close>

datatype error =
    ErrLib string
  | ErrStatus string bytes
  | ErrCreatingDirectory int error
  | ErrSavingMetadata int error
  | ErrGettingAttachments int error
  | FailedToProcessRequest int error
  | FailedToGetRequests error

text \<open>
  \<open>Request\<close>: the fields the program reads are \<open>ID\<close> and \<open>Title\<close>; the other fields of the
  struct are decoded and re-encoded only, and are carried together in \<open>Rest\<close>.
\<close>

record Request =
  ID :: int
  Title :: string
  Rest :: string

record File =
  DocumentID :: int
  Name :: string
  UploadedAt :: string

text \<open>\<open>RequestListResponse\<close>: \<open>Data\<close> and \<open>Links.Next.Href\<close>.\<close>

record RequestListResponse =
  Data :: "Request list"
  NextHref :: string

text \<open>
  An HTTP response as the program consumes it: \<open>Body\<close> holds the bytes the body stream
  delivers, and \<open>BodyErr\<close> the error with which the stream stops after them, if any.
\<close>

record Response =
  StatusCode :: nat
  Status :: string
  Body :: bytes
  BodyErr :: "error option"

text \<open>
  The URL of a request is \<open>apiURL + path\<close>, where the path is one of the four endpoint
  constants with the IDs formatted in, or the cursor of the previous listing response.
\<close>

datatype endpoint =
    requestsPath
  | cursorPath string
  | requestDetailsPath int
  | requestAttachmentsPath int
  | downloadFilePath int int

section \<open>External collaborators\<close>

text \<open>
  Everything outside the repository is a parameter: the remote API (\<open>httpDo\<close>, keyed by the
  endpoint requested), \<open>http.NewRequest\<close>, the JSON decoder and encoder, \<open>filepath.Join\<close>,
  the \<open>%d\<close> verb of \<open>fmt.Sprintf\<close>, and the failures the operating system may inject into
  \<open>os.MkdirAll\<close>, \<open>os.WriteFile\<close> and \<open>os.Create\<close> beyond those the file-system model
  below decides itself. A failing \<open>os.WriteFile\<close> may leave the file with some content
  (\<open>Some b\<close>) or untouched (\<open>None\<close>).
\<close>

record env =
  newRequestErr :: "endpoint \<Rightarrow> error option"
  httpDo :: "endpoint \<Rightarrow> error + Response"
  decodeRequest :: "Response \<Rightarrow> error + Request"
  decodeRequestList :: "Response \<Rightarrow> error + RequestListResponse"
  decodeAttachmentList :: "Response \<Rightarrow> error + File list"
  marshalIndent :: "Request \<Rightarrow> error + bytes"
  join :: "path \<Rightarrow> string \<Rightarrow> path"
  itoa :: "int \<Rightarrow> string"
  mkdirFault :: "path \<Rightarrow> error option"
  writeFault :: "path \<Rightarrow> (error \<times> bytes option) option"
  createFault :: "path \<Rightarrow> error option"

section \<open>The world: file system and output\<close>

text \<open>
  Everything the program prints, logs or asks of the outside, in the order it happens.
\<close>

datatype event =
    PrintProcessing int string
  | PrintDownloading string
  | PrintSkipping path
  | LogDownloadError string int error
  | LogError error
  | OsMkdirAll path
  | OsWriteFile path
  | OsStat path
  | OsCreate path
  | IoCopy path
  | HttpDo endpoint

record world =
  dirs :: "path set"
  files :: "path \<rightharpoonup> bytes"
  events :: "event list"

definition emit :: "event \<Rightarrow> world \<Rightarrow> world" where
  "emit e w = w\<lparr>events := events w @ [e]\<rparr>"

text \<open>\<open>os.Stat(p)\<close> returns a nil error exactly when something exists at \<open>p\<close>.\<close>

definition exists_at :: "world \<Rightarrow> path \<Rightarrow> bool" where
  "exists_at w p = (p \<in> dom (files w) \<or> p \<in> dirs w)"

text \<open>
  \<open>os.MkdirAll(p, 0755)\<close>: nil when \<open>p\<close> is a directory already; an error when \<open>p\<close> is a
  file; otherwise the directory is created (parents are not tracked).
\<close>

definition MkdirAll :: "env \<Rightarrow> path \<Rightarrow> world \<Rightarrow> error option \<times> world" where
  "MkdirAll E p w =
     (let w1 = emit (OsMkdirAll p) w in
      if p \<in> dom (files w1) then (Some (ErrLib ''mkdir: not a directory''), w1)
      else if p \<in> dirs w1 then (None, w1)
      else (case mkdirFault E p of
              Some e \<Rightarrow> (Some e, w1)
            | None \<Rightarrow> (None, w1\<lparr>dirs := insert p (dirs w1)\<rparr>)))"

text \<open>\<open>os.WriteFile(p, data, 0644)\<close>: creates or truncates \<open>p\<close> and writes \<open>data\<close>.\<close>

definition WriteFile :: "env \<Rightarrow> path \<Rightarrow> bytes \<Rightarrow> world \<Rightarrow> error option \<times> world" where
  "WriteFile E p data w =
     (let w1 = emit (OsWriteFile p) w in
      if p \<in> dirs w1 then (Some (ErrLib ''open: is a directory''), w1)
      else (case writeFault E p of
              Some (e, None) \<Rightarrow> (Some e, w1)
            | Some (e, Some b) \<Rightarrow> (Some e, w1\<lparr>files := (files w1)(p \<mapsto> b)\<rparr>)
            | None \<Rightarrow> (None, w1\<lparr>files := (files w1)(p \<mapsto> data)\<rparr>)))"

text \<open>\<open>os.Create(p)\<close>: creates \<open>p\<close> or truncates it to length zero.\<close>

definition Create :: "env \<Rightarrow> path \<Rightarrow> world \<Rightarrow> error option \<times> world" where
  "Create E p w =
     (let w1 = emit (OsCreate p) w in
      if p \<in> dirs w1 then (Some (ErrLib ''open: is a directory''), w1)
      else (case createFault E p of
              Some e \<Rightarrow> (Some e, w1)
            | None \<Rightarrow> (None, w1\<lparr>files := (files w1)(p \<mapsto> [])\<rparr>)))"

text \<open>
  \<open>io.Copy(out, resp.Body)\<close>: the bytes the body delivers are appended to the open file,
  and the error that stopped the transfer, if any, is returned.
\<close>

definition Copy :: "path \<Rightarrow> Response \<Rightarrow> world \<Rightarrow> error option \<times> world" where
  "Copy p resp w =
     (let w1 = emit (IoCopy p) w in
      (BodyErr resp,
       w1\<lparr>files := (files w1)(p \<mapsto> (case files w1 p of None \<Rightarrow> [] | Some b \<Rightarrow> b) @ Body resp)\<rparr>))"

section \<open>The API client (client.go)\<close>

text \<open>\<open>newRequest\<close>: builds the request for an endpoint, or fails as \<open>http.NewRequest\<close> does.\<close>

definition newRequest :: "env \<Rightarrow> endpoint \<Rightarrow> error + endpoint" where
  "newRequest E ep = (case newRequestErr E ep of Some e \<Rightarrow> Inl e | None \<Rightarrow> Inr ep)"

text \<open>\<open>do\<close>: executes the request and decodes the JSON body of a 200 response.\<close>

definition do_request ::
  "env \<Rightarrow> endpoint \<Rightarrow> (Response \<Rightarrow> error + 'a) \<Rightarrow> world \<Rightarrow> (error + 'a) \<times> world" where
  "do_request E req decode w =
     (let w1 = emit (HttpDo req) w in
      case httpDo E req of
        Inl e \<Rightarrow> (Inl e, w1)
      | Inr resp \<Rightarrow>
          if StatusCode resp \<noteq> 200 then (Inl (ErrStatus (Status resp) (Body resp)), w1)
          else (case decode resp of Inl e \<Rightarrow> (Inl e, w1) | Inr v \<Rightarrow> (Inr v, w1)))"

definition GetRequestDetails :: "env \<Rightarrow> int \<Rightarrow> world \<Rightarrow> (error + Request) \<times> world" where
  "GetRequestDetails E requestID w =
     (case newRequest E (requestDetailsPath requestID) of
        Inl e \<Rightarrow> (Inl e, w)
      | Inr req \<Rightarrow> do_request E req (decodeRequest E) w)"

definition GetRequests :: "env \<Rightarrow> string \<Rightarrow> world \<Rightarrow> (error + RequestListResponse) \<times> world" where
  "GetRequests E cursor w =
     (let path = (if cursor \<noteq> [] then cursorPath cursor else requestsPath) in
      case newRequest E path of
        Inl e \<Rightarrow> (Inl e, w)
      | Inr req \<Rightarrow> do_request E req (decodeRequestList E) w)"

definition GetAttachments :: "env \<Rightarrow> int \<Rightarrow> world \<Rightarrow> (error + File list) \<times> world" where
  "GetAttachments E requestID w =
     (case newRequest E (requestAttachmentsPath requestID) of
        Inl e \<Rightarrow> (Inl e, w)
      | Inr req \<Rightarrow> do_request E req (decodeAttachmentList E) w)"

text \<open>
  \<open>DownloadAttachment\<close>: with \<open>overwrite\<close> false an existing destination is skipped and nil
  returned; otherwise the file is requested, and on a 200 response created and filled.
\<close>

definition DownloadAttachment ::
  "env \<Rightarrow> int \<Rightarrow> File \<Rightarrow> path \<Rightarrow> bool \<Rightarrow> world \<Rightarrow> error option \<times> world" where
  "DownloadAttachment E requestID attachment outputDir overwrite w =
     (let filePath = join E outputDir (Name attachment) in
      if \<not> overwrite \<and> exists_at w filePath
      then (None, emit (PrintSkipping filePath) (emit (OsStat filePath) w))
      else
        (let w0 = (if overwrite then w else emit (OsStat filePath) w) in
         case newRequest E (downloadFilePath requestID (DocumentID attachment)) of
           Inl e \<Rightarrow> (Some e, w0)
         | Inr req \<Rightarrow>
             (let w1 = emit (HttpDo req) w0 in
              case httpDo E req of
                Inl e \<Rightarrow> (Some e, w1)
              | Inr resp \<Rightarrow>
                  if StatusCode resp \<noteq> 200
                  then (Some (ErrStatus (Status resp) (Body resp)), w1)
                  else (case Create E filePath w1 of
                          (Some e, w2) \<Rightarrow> (Some e, w2)
                        | (None, w2) \<Rightarrow> Copy filePath resp w2))))"

section \<open>Processing one record (main.go)\<close>

text \<open>
  \<open>saveMetadata\<close>: fetches the full details of a request and writes them, indented, to
  \<open>metadata.json\<close> in the directory given.
\<close>

definition saveMetadata :: "env \<Rightarrow> int \<Rightarrow> path \<Rightarrow> world \<Rightarrow> error option \<times> world" where
  "saveMetadata E requestID dir w =
     (case GetRequestDetails E requestID w of
        (Inl e, w1) \<Rightarrow> (Some e, w1)
      | (Inr req, w1) \<Rightarrow>
          (case marshalIndent E req of
             Inl e \<Rightarrow> (Some e, w1)
           | Inr data \<Rightarrow> WriteFile E (join E dir ''metadata.json'') data w1))"

text \<open>
  The attachment loop of \<open>processRequest\<close>: every attachment in list order; a download
  error is logged with the attachment's name and the record ID, and the loop goes on.
\<close>

fun downloadAll :: "env \<Rightarrow> int \<Rightarrow> File list \<Rightarrow> path \<Rightarrow> bool \<Rightarrow> world \<Rightarrow> world" where
  "downloadAll E requestID [] recordDir overwrite w = w"
| "downloadAll E requestID (attachment # rest) recordDir overwrite w =
     (case DownloadAttachment E requestID attachment recordDir overwrite
             (emit (PrintDownloading (Name attachment)) w) of
        (Some e, w1) \<Rightarrow>
          downloadAll E requestID rest recordDir overwrite
            (emit (LogDownloadError (Name attachment) requestID e) w1)
      | (None, w1) \<Rightarrow> downloadAll E requestID rest recordDir overwrite w1)"

definition recordDirOf :: "env \<Rightarrow> path \<Rightarrow> int \<Rightarrow> path" where
  "recordDirOf E outputDir requestID = join E outputDir (''record_'' @ itoa E requestID)"

definition processRequest ::
  "env \<Rightarrow> Request \<Rightarrow> path \<Rightarrow> bool \<Rightarrow> world \<Rightarrow> error option \<times> world" where
  "processRequest E request outputDir overwrite w =
     (let w0 = emit (PrintProcessing (ID request) (Title request)) w;
          recordDir = recordDirOf E outputDir (ID request) in
      case MkdirAll E recordDir w0 of
        (Some e, w1) \<Rightarrow> (Some (ErrCreatingDirectory (ID request) e), w1)
      | (None, w1) \<Rightarrow>
          (case saveMetadata E (ID request) recordDir w1 of
             (Some e, w2) \<Rightarrow> (Some (ErrSavingMetadata (ID request) e), w2)
           | (None, w2) \<Rightarrow>
               (case GetAttachments E (ID request) w2 of
                  (Inl e, w3) \<Rightarrow> (Some (ErrGettingAttachments (ID request) e), w3)
                | (Inr attachments, w3) \<Rightarrow>
                    (None, downloadAll E (ID request) attachments recordDir overwrite w3))))"

section \<open>The pipeline (main)\<close>

subsection \<open>The discovery goroutine\<close>

text \<open>
  The goroutine that pages through the listing: it is about to call \<open>GetRequests\<close> with a
  cursor, or inside the \<open>range resp.Data\<close> loop with a record to send and the rest of the
  page, or about to send the listing error to \<open>errChan\<close>, or about to close
  \<open>requestsChan\<close>, or finished.
\<close>

datatype pstate =
    PCall string
  | PSend Request "Request list" string
  | PReport error
  | PClose
  | PDone

datatype pevent =
    Listing string
  | Emit Request
  | Report error
  | CloseRequests

text \<open>
  Where the goroutine stands with the rest \<open>rs\<close> of a page to send: the next record, or,
  the page exhausted, the test of \<open>resp.Links.Next.Href\<close>.
\<close>

definition after_page :: "Request list \<Rightarrow> string \<Rightarrow> pstate" where
  "after_page rs href =
     (case rs of
        r # rest \<Rightarrow> PSend r rest href
      | [] \<Rightarrow> if href = [] then PClose else PCall href)"

text \<open>
  The goroutine's next action by its program text alone, the other goroutines left
  aside: what it does once it can move. In a run (\<open>step\<close> below) these same actions are the
  moves \<open>Fetch\<close>, \<open>Hand\<close>, \<open>ReportFailure\<close> and \<open>CloseRequestsChan\<close>; there a send on
  \<open>requestsChan\<close> waits for a worker to receive, and a send on \<open>errChan\<close> for room.
\<close>

fun pstep :: "env \<Rightarrow> pstate \<Rightarrow> world \<Rightarrow> (pevent \<times> pstate \<times> world) option" where
  "pstep E (PCall cursor) w =
     (case GetRequests E cursor w of
        (Inl err, w1) \<Rightarrow> Some (Listing cursor, PReport (FailedToGetRequests err), w1)
      | (Inr resp, w1) \<Rightarrow> Some (Listing cursor, after_page (Data resp) (NextHref resp), w1))"
| "pstep E (PSend r rest href) w = Some (Emit r, after_page rest href, w)"
| "pstep E (PReport e) w = Some (Report e, PClose, w)"
| "pstep E PClose w = Some (CloseRequests, PDone, w)"
| "pstep E PDone w = None"

text \<open>
  The actions the goroutine has before it from a given point of its program, in order,
  were it never kept waiting. This does not stand for a run (that is \<open>exec\<close> below); it
  serves to say what the producer of a run has still to do (\<open>on_track\<close>). The loop need
  not end (a listing whose cursors cycle), so the list is computed with fuel, one unit per
  action; \<open>None\<close> when the fuel does not suffice.
\<close>

fun prun :: "nat \<Rightarrow> env \<Rightarrow> pstate \<Rightarrow> world \<Rightarrow> (pevent list \<times> world) option" where
  "prun 0 E p w = (if p = PDone then Some ([], w) else None)"
| "prun (Suc fuel) E p w =
     (case pstep E p w of
        None \<Rightarrow> Some ([], w)
      | Some (ev, p1, w1) \<Rightarrow>
          (case prun fuel E p1 w1 of
             None \<Rightarrow> None
           | Some (evs, w2) \<Rightarrow> Some (ev # evs, w2)))"

subsection \<open>Workers, channels and the main goroutine\<close>

text \<open>
  A worker is waiting in \<open>range requestsChan\<close>, or holds a record it is about to process,
  or is about to send the wrapped error of a failed record to \<open>errChan\<close>, or has left its
  loop (\<open>wg.Done\<close>).
\<close>

datatype wstate =
    Idle
  | Busy Request
  | Sending error
  | Exited

text \<open>
  The state of a run. \<open>requestsChan\<close> is unbuffered, so only whether it is closed is
  state; \<open>errChan\<close> is its buffer, of capacity \<open>numWorkers\<close> (the number of workers).
  \<open>ptrace\<close>, \<open>discovered\<close>, \<open>processed\<close> and \<open>listingFailures\<close> record history only: the
  producer's actions, the records the listing calls returned, the records handed to
  \<open>processRequest\<close>, and the number of listing calls that returned an error.
\<close>

record machine =
  producer :: pstate
  requestsClosed :: bool
  workers :: "wstate list"
  errChan :: "error list"
  errClosed :: bool
  mainDone :: bool
  panicked :: bool
  world :: world
  ptrace :: "pevent list"
  discovered :: "Request list"
  processed :: "Request list"
  listingFailures :: nat

text \<open>
  The start of a run with \<open>k\<close> workers on the file system of \<open>w\<close>: nothing printed,
  logged or requested yet.
\<close>

definition init :: "nat \<Rightarrow> world \<Rightarrow> machine" where
  "init k w =
     \<lparr>producer = PCall [], requestsClosed = False, workers = replicate k Idle,
      errChan = [], errClosed = False, mainDone = False, panicked = False,
      world = w\<lparr>events := []\<rparr>, ptrace = [], discovered = [], processed = [],
      listingFailures = 0\<rparr>"

text \<open>
  A send on \<open>errChan\<close>: a panic when the channel is closed; into the buffer when it has
  room; with no buffer at all (capacity zero) handed to the main goroutine, which logs
  it; blocked otherwise.
\<close>

definition sendErr :: "error \<Rightarrow> machine \<Rightarrow> machine option" where
  "sendErr e m =
     (if errClosed m then Some (m\<lparr>panicked := True\<rparr>)
      else if length (errChan m) < length (workers m) then Some (m\<lparr>errChan := errChan m @ [e]\<rparr>)
      else if workers m = [] then Some (m\<lparr>world := emit (LogError e) (world m)\<rparr>)
      else None)"

text \<open>The scheduler's choices: which goroutine moves next.\<close>

datatype action =
    Fetch
  | Hand nat
  | Process nat
  | SendError nat
  | Exit nat
  | ReportFailure
  | CloseRequestsChan
  | CloseErrChan
  | Drain
  | Finish

text \<open>
  One move of the run, \<open>None\<close> when the goroutine chosen cannot move. Nothing moves once
  the main goroutine has returned or the process has panicked.
\<close>

definition step :: "env \<Rightarrow> path \<Rightarrow> bool \<Rightarrow> action \<Rightarrow> machine \<Rightarrow> machine option" where
  "step E outputDir overwrite a m =
     (if mainDone m \<or> panicked m then None
      else case a of
        Fetch \<Rightarrow>
          (case producer m of
             PCall cursor \<Rightarrow>
               (case GetRequests E cursor (world m) of
                  (Inl err, w1) \<Rightarrow>
                    Some (m\<lparr>producer := PReport (FailedToGetRequests err), world := w1,
                            ptrace := ptrace m @ [Listing cursor],
                            listingFailures := Suc (listingFailures m)\<rparr>)
                | (Inr resp, w1) \<Rightarrow>
                    Some (m\<lparr>producer := after_page (Data resp) (NextHref resp), world := w1,
                            ptrace := ptrace m @ [Listing cursor],
                            discovered := discovered m @ Data resp\<rparr>))
           | _ \<Rightarrow> None)
      | Hand i \<Rightarrow>
          (case producer m of
             PSend r rest href \<Rightarrow>
               if i < length (workers m) \<and> workers m ! i = Idle \<and> \<not> requestsClosed m
               then Some (m\<lparr>producer := after_page rest href,
                            workers := (workers m)[i := Busy r],
                            ptrace := ptrace m @ [Emit r]\<rparr>)
               else None
           | _ \<Rightarrow> None)
      | Process i \<Rightarrow>
          (if i < length (workers m) then
             (case workers m ! i of
                Busy r \<Rightarrow>
                  (case processRequest E r outputDir overwrite (world m) of
                     (Some err, w1) \<Rightarrow>
                       Some (m\<lparr>workers := (workers m)[i := Sending (FailedToProcessRequest (ID r) err)],
                               world := w1, processed := processed m @ [r]\<rparr>)
                   | (None, w1) \<Rightarrow>
                       Some (m\<lparr>workers := (workers m)[i := Idle],
                               world := w1, processed := processed m @ [r]\<rparr>))
              | _ \<Rightarrow> None)
           else None)
      | SendError i \<Rightarrow>
          (if i < length (workers m) then
             (case workers m ! i of
                Sending e \<Rightarrow>
                  (case sendErr e m of
                     None \<Rightarrow> None
                   | Some m1 \<Rightarrow>
                       Some (if panicked m1 then m1 else m1\<lparr>workers := (workers m1)[i := Idle]\<rparr>))
              | _ \<Rightarrow> None)
           else None)
      | Exit i \<Rightarrow>
          (if i < length (workers m) \<and> workers m ! i = Idle \<and> requestsClosed m
           then Some (m\<lparr>workers := (workers m)[i := Exited]\<rparr>)
           else None)
      | ReportFailure \<Rightarrow>
          (case producer m of
             PReport e \<Rightarrow>
               (case sendErr e m of
                  None \<Rightarrow> None
                | Some m1 \<Rightarrow>
                    Some (if panicked m1 then m1
                          else m1\<lparr>producer := PClose, ptrace := ptrace m1 @ [Report e]\<rparr>))
           | _ \<Rightarrow> None)
      | CloseRequestsChan \<Rightarrow>
          (case producer m of
             PClose \<Rightarrow>
               Some (m\<lparr>producer := PDone, requestsClosed := True,
                       ptrace := ptrace m @ [CloseRequests]\<rparr>)
           | _ \<Rightarrow> None)
      | CloseErrChan \<Rightarrow>
          (if (\<forall>ws \<in> set (workers m). ws = Exited) \<and> \<not> errClosed m
           then Some (m\<lparr>errClosed := True\<rparr>)
           else None)
      | Drain \<Rightarrow>
          (case errChan m of
             e # rest \<Rightarrow> Some (m\<lparr>errChan := rest, world := emit (LogError e) (world m)\<rparr>)
           | [] \<Rightarrow> None)
      | Finish \<Rightarrow>
          (if errChan m = [] \<and> errClosed m then Some (m\<lparr>mainDone := True\<rparr>) else None))"

text \<open>A run under a schedule; \<open>None\<close> when the schedule asks for a move that is not possible.\<close>

fun exec :: "env \<Rightarrow> path \<Rightarrow> bool \<Rightarrow> action list \<Rightarrow> machine \<Rightarrow> machine option" where
  "exec E outputDir overwrite [] m = Some m"
| "exec E outputDir overwrite (a # as) m =
     (case step E outputDir overwrite a m of
        None \<Rightarrow> None
      | Some m1 \<Rightarrow> exec E outputDir overwrite as m1)"

subsection \<open>Start-up\<close>

record config =
  flag_api_url :: string
  flag_token :: string
  flag_output_dir :: path
  flag_workers :: int
  flag_overwrite :: bool

text \<open>
  The largest capacity \<open>make(chan error, n)\<close> accepts. The Go runtime panics
  (\<open>makechan: size out of range\<close>) when \<open>n\<close> is negative or when the buffer, 16 bytes for
  each \<open>error\<close> value, is larger than what it can allocate less the channel header: on a
  64-bit platform \<open>2^48 - 96\<close> bytes.
\<close>

definition maxChanCap :: int where
  "maxChanCap = (2 ^ 48 - 96) div 16"

text \<open>
  \<open>main\<close> up to the first goroutine, on the flags as parsed: it prints the usage and exits
  with status 1 when \<open>-api-url\<close> or \<open>-token\<close> is empty; \<open>make(chan error, *numWorkers)\<close>
  panics on a size that is negative or beyond \<open>maxChanCap\<close>; otherwise the run starts
  with \<open>numWorkers\<close> workers. Memory is not part of the model: a count within the
  limit whose buffer or goroutines the machine cannot hold is treated as any other.
\<close>

datatype startup =
    ExitUsage
  | PanicMakeChan
  | Run machine

definition main :: "config \<Rightarrow> world \<Rightarrow> startup" where
  "main cfg w =
     (if flag_api_url cfg = [] \<or> flag_token cfg = [] then ExitUsage
      else if flag_workers cfg < 0 \<or> maxChanCap < flag_workers cfg then PanicMakeChan
      else Run (init (nat (flag_workers cfg)) w))"

section \<open>Predicates used by the properties\<close>

text \<open>
  \<open>DownloadAttachment\<close> gets as far as \<open>io.Copy\<close>: the request is built, answered with
  status 200, and \<open>os.Create\<close> succeeds on the destination.
\<close>

definition transfer_started :: "env \<Rightarrow> int \<Rightarrow> File \<Rightarrow> path \<Rightarrow> world \<Rightarrow> bool" where
  "transfer_started E requestID attachment outputDir w =
     (newRequestErr E (downloadFilePath requestID (DocumentID attachment)) = None \<and>
      (case httpDo E (downloadFilePath requestID (DocumentID attachment)) of
         Inl e \<Rightarrow> False
       | Inr resp \<Rightarrow> StatusCode resp = 200) \<and>
      join E outputDir (Name attachment) \<notin> dirs w \<and>
      createFault E (join E outputDir (Name attachment)) = None)"

section \<open>Concrete scenarios\<close>

text \<open>
  A small simulated environment: paths are joined with a slash, nothing fails locally,
  the metadata document of a record is the body of the details response, and the remote
  and the two list decoders are given.
\<close>

definition plain_join :: "path \<Rightarrow> string \<Rightarrow> path" where
  "plain_join d n = d @ ''/'' @ n"

definition sim_env ::
  "(endpoint \<Rightarrow> error + Response) \<Rightarrow> (Response \<Rightarrow> error + RequestListResponse) \<Rightarrow>
   (Response \<Rightarrow> error + File list) \<Rightarrow> env" where
  "sim_env remote pages atts =
     \<lparr>newRequestErr = (\<lambda>ep. None),
      httpDo = remote,
      decodeRequest = (\<lambda>resp. Inr \<lparr>ID = 0, Title = [], Rest = Body resp\<rparr>),
      decodeRequestList = pages,
      decodeAttachmentList = atts,
      marshalIndent = (\<lambda>req. Inr (Rest req)),
      join = plain_join,
      itoa = (\<lambda>i. if i = 1 then ''1'' else if i = 2 then ''2'' else if i = 3 then ''3''
                  else if i = 4 then ''4'' else if i = 5 then ''5'' else ''n''),
      mkdirFault = (\<lambda>p. None),
      writeFault = (\<lambda>p. None),
      createFault = (\<lambda>p. None)\<rparr>"

definition ok :: "bytes \<Rightarrow> Response" where
  "ok b = \<lparr>StatusCode = 200, Status = ''200 OK'', Body = b, BodyErr = None\<rparr>"

definition broken :: "bytes \<Rightarrow> Response" where
  "broken b = \<lparr>StatusCode = 200, Status = ''200 OK'', Body = b,
              BodyErr = Some (ErrLib ''unexpected EOF'')\<rparr>"

definition no_json :: "Response \<Rightarrow> error + 'a" where
  "no_json resp = Inl (ErrLib ''invalid character'')"

text \<open>A download whose body breaks off after three bytes, onto an existing file.\<close>

definition env_c3 :: env where
  "env_c3 = sim_env (\<lambda>ep. Inr (broken ''par'')) no_json no_json"

definition world_c3 :: world where
  "world_c3 = \<lparr>dirs = {''out''}, files = [''out/a.bin'' \<mapsto> ''old content''], events = []\<rparr>"

definition file_c3 :: File where
  "file_c3 = \<lparr>DocumentID = 7, Name = ''a.bin'', UploadedAt = []\<rparr>"

text \<open>
  The part of \<open>DownloadAttachment\<close> after the overwrite check: request, status check,
  \<open>os.Create\<close>, \<open>io.Copy\<close>.
\<close>

definition transfer :: "env \<Rightarrow> endpoint \<Rightarrow> path \<Rightarrow> world \<Rightarrow> error option \<times> world" where
  "transfer E ep p w =
     (case newRequest E ep of
        Inl e \<Rightarrow> (Some e, w)
      | Inr req \<Rightarrow>
          (let w1 = emit (HttpDo req) w in
           case httpDo E req of
             Inl e \<Rightarrow> (Some e, w1)
           | Inr resp \<Rightarrow>
               if StatusCode resp \<noteq> 200
               then (Some (ErrStatus (Status resp) (Body resp)), w1)
               else (case Create E p w1 of
                       (Some e, w2) \<Rightarrow> (Some e, w2)
                     | (None, w2) \<Rightarrow> Copy p resp w2)))"

text \<open>
  The step of \<open>processRequest\<close> an event belongs to: 1 the record directory, 2 the
  metadata (fetch and write), 3 the attachment list, 4 the attachments; 0 is the
  announcement of the record, 5 anything that is not part of processing a record.
\<close>

fun stage :: "event \<Rightarrow> nat" where
  "stage (PrintProcessing i t) = 0"
| "stage (OsMkdirAll p) = 1"
| "stage (HttpDo (requestDetailsPath i)) = 2"
| "stage (OsWriteFile p) = 2"
| "stage (HttpDo (requestAttachmentsPath i)) = 3"
| "stage (PrintDownloading n) = 4"
| "stage (OsStat p) = 4"
| "stage (PrintSkipping p) = 4"
| "stage (HttpDo (downloadFilePath i d)) = 4"
| "stage (OsCreate p) = 4"
| "stage (IoCopy p) = 4"
| "stage (LogDownloadError n i e) = 4"
| "stage (LogError e) = 5"
| "stage (HttpDo requestsPath) = 5"
| "stage (HttpDo (cursorPath c)) = 5"

text \<open>The attachments announced by \<open>Downloading attachment: ...\<close>, in order.\<close>

fun downloading :: "event list \<Rightarrow> string list" where
  "downloading [] = []"
| "downloading (PrintDownloading n # evs) = n # downloading evs"
| "downloading (ev # evs) = downloading evs"

text \<open>
  A remote with one record of interest: its details are \<open>{meta}\<close>; document 7 is \<open>AAA\<close>,
  document 9 is \<open>CCC\<close>, and the download of any other document is reset.
\<close>

definition r1 :: Request where
  "r1 = \<lparr>ID = 1, Title = ''Evidence'', Rest = []\<rparr>"

definition fa :: File where
  "fa = \<lparr>DocumentID = 7, Name = ''a.bin'', UploadedAt = []\<rparr>"

definition fb :: File where
  "fb = \<lparr>DocumentID = 8, Name = ''b.bin'', UploadedAt = []\<rparr>"

definition fc :: File where
  "fc = \<lparr>DocumentID = 9, Name = ''c.bin'', UploadedAt = []\<rparr>"

definition remote_std :: "endpoint \<Rightarrow> error + Response" where
  "remote_std ep =
     (case ep of
        requestsPath \<Rightarrow> Inr (ok ''page1'')
      | cursorPath c \<Rightarrow> Inr (ok c)
      | requestDetailsPath i \<Rightarrow> Inr (ok ''{meta}'')
      | requestAttachmentsPath i \<Rightarrow> Inr (ok ''files'')
      | downloadFilePath i d \<Rightarrow>
          if d = 7 then Inr (ok ''AAA'')
          else if d = 9 then Inr (ok ''CCC'')
          else Inl (ErrLib ''connection reset''))"

definition one_page :: "Response \<Rightarrow> error + RequestListResponse" where
  "one_page resp = Inr \<lparr>Data = [r1], NextHref = []\<rparr>"

definition env_std :: "File list \<Rightarrow> env" where
  "env_std atts = sim_env remote_std one_page (\<lambda>resp. Inr atts)"

text \<open>The same remote with the attachment list, respectively the details, timing out.\<close>

definition env_no_list :: env where
  "env_no_list =
     sim_env (\<lambda>ep. case ep of requestAttachmentsPath i \<Rightarrow> Inl (ErrLib ''timeout'') | _ \<Rightarrow> remote_std ep)
       one_page no_json"

definition env_no_details :: env where
  "env_no_details =
     sim_env (\<lambda>ep. case ep of requestDetailsPath i \<Rightarrow> Inl (ErrLib ''timeout'') | _ \<Rightarrow> remote_std ep)
       one_page no_json"

definition empty_world :: world where
  "empty_world = \<lparr>dirs = {}, files = Map.empty, events = []\<rparr>"

text \<open>A world in which the record directory's path is taken by a file.\<close>

definition blocked_world :: world where
  "blocked_world = \<lparr>dirs = {}, files = [''out/record_1'' \<mapsto> ''x''], events = []\<rparr>"

text \<open>A second descriptor with the display name of \<open>fa\<close>; its document is \<open>CCC\<close>.\<close>

definition fa2 :: File where
  "fa2 = \<lparr>DocumentID = 9, Name = ''a.bin'', UploadedAt = []\<rparr>"

text \<open>
  The final report: the errors the main goroutine received from \<open>errChan\<close> and logged, in
  order.
\<close>

fun report :: "event list \<Rightarrow> error list" where
  "report [] = []"
| "report (LogError e # evs) = e # report evs"
| "report (ev # evs) = report evs"

text \<open>
  The record \<open>r1\<close> with three attachments, the second of which cannot be downloaded,
  processed after the listing call into an empty output directory: the world afterwards,
  and the state in which that run of the whole pipeline with one worker ends.
\<close>

definition after_three :: world where
  "after_three =
      \<lparr>dirs = {''out/record_1''},
       files = [''out/record_1/metadata.json'' \<mapsto> ''{meta}'',
                ''out/record_1/a.bin'' \<mapsto> ''AAA'', ''out/record_1/c.bin'' \<mapsto> ''CCC''],
       events = [HttpDo requestsPath,
                 PrintProcessing 1 ''Evidence'', OsMkdirAll ''out/record_1'',
                 HttpDo (requestDetailsPath 1), OsWriteFile ''out/record_1/metadata.json'',
                 HttpDo (requestAttachmentsPath 1),
                 PrintDownloading ''a.bin'', OsStat ''out/record_1/a.bin'',
                 HttpDo (downloadFilePath 1 7), OsCreate ''out/record_1/a.bin'',
                 IoCopy ''out/record_1/a.bin'',
                 PrintDownloading ''b.bin'', OsStat ''out/record_1/b.bin'',
                 HttpDo (downloadFilePath 1 8),
                 LogDownloadError ''b.bin'' 1 (ErrLib ''connection reset''),
                 PrintDownloading ''c.bin'', OsStat ''out/record_1/c.bin'',
                 HttpDo (downloadFilePath 1 9), OsCreate ''out/record_1/c.bin'',
                 IoCopy ''out/record_1/c.bin'']\<rparr>"

definition final_three :: machine where
  "final_three =
     \<lparr>producer = PDone, requestsClosed = True, workers = [Exited],
      errChan = [], errClosed = True, mainDone = True, panicked = False,
      world = after_three,
      ptrace = [Listing [], Emit r1, CloseRequests], discovered = [r1], processed = [r1],
      listingFailures = 0\<rparr>"

text \<open>
  The answer of the listing endpoint for a cursor (it does not depend on the local
  world), and a listing that serves a given finite sequence of pages from a cursor: each
  page but the last carries the cursor of the next one, the last carries none.
\<close>

definition listing :: "env \<Rightarrow> string \<Rightarrow> error + RequestListResponse" where
  "listing E cursor = fst (GetRequests E cursor \<lparr>dirs = {}, files = Map.empty, events = []\<rparr>)"

fun serves :: "env \<Rightarrow> string \<Rightarrow> RequestListResponse list \<Rightarrow> bool" where
  "serves E cursor [] = False"
| "serves E cursor (p # ps) =
     (listing E cursor = Inr p \<and>
      (if ps = [] then NextHref p = [] else NextHref p \<noteq> [] \<and> serves E (NextHref p) ps))"

text \<open>
  What discovery is to do for these pages: per page one listing call followed by the
  page's records in order, and at the end the close of \<open>requestsChan\<close>.
\<close>

fun expected :: "string \<Rightarrow> RequestListResponse list \<Rightarrow> pevent list" where
  "expected cursor [] = [CloseRequests]"
| "expected cursor (p # ps) = Listing cursor # map Emit (Data p) @ expected (NextHref p) ps"

fun calls :: "pevent list \<Rightarrow> string list" where
  "calls [] = []"
| "calls (Listing c # evs) = c # calls evs"
| "calls (ev # evs) = calls evs"

fun emitted :: "pevent list \<Rightarrow> Request list" where
  "emitted [] = []"
| "emitted (Emit r # evs) = r # emitted evs"
| "emitted (ev # evs) = emitted evs"

text \<open>Three pages of the records 1 to 5.\<close>

definition r2 :: Request where "r2 = \<lparr>ID = 2, Title = ''Two'', Rest = []\<rparr>"
definition r3 :: Request where "r3 = \<lparr>ID = 3, Title = ''Three'', Rest = []\<rparr>"
definition r4 :: Request where "r4 = \<lparr>ID = 4, Title = ''Four'', Rest = []\<rparr>"
definition r5 :: Request where "r5 = \<lparr>ID = 5, Title = ''Five'', Rest = []\<rparr>"

definition page1 :: RequestListResponse where "page1 = \<lparr>Data = [r1, r2], NextHref = ''/p2''\<rparr>"
definition page2 :: RequestListResponse where "page2 = \<lparr>Data = [r3], NextHref = ''/p3''\<rparr>"
definition page3 :: RequestListResponse where "page3 = \<lparr>Data = [r4, r5], NextHref = []\<rparr>"

definition three_pages :: "Response \<Rightarrow> error + RequestListResponse" where
  "three_pages resp =
     (if Body resp = ''page1'' then Inr page1
      else if Body resp = ''/p2'' then Inr page2
      else if Body resp = ''/p3'' then Inr page3
      else Inl (ErrLib ''invalid character''))"

definition env_pages :: env where
  "env_pages = sim_env remote_std three_pages (\<lambda>resp. Inr [])"

text \<open>
  Where the discovered records are while the run goes on: still to be sent by the
  producer, or held by a worker that received them and has not processed them yet.
\<close>

fun pending :: "pstate \<Rightarrow> Request multiset" where
  "pending (PSend r rest href) = mset (r # rest)"
| "pending p = {#}"

fun holding :: "wstate \<Rightarrow> Request multiset" where
  "holding (Busy r) = {#r#}"
| "holding ws = {#}"

definition inflight :: "wstate list \<Rightarrow> Request multiset" where
  "inflight wss = sum_list (map holding wss)"

text \<open>The discovery failures among some errors.\<close>

fun discovery_failures :: "error list \<Rightarrow> nat" where
  "discovery_failures [] = 0"
| "discovery_failures (FailedToGetRequests e # es) = Suc (discovery_failures es)"
| "discovery_failures (e # es) = discovery_failures es"

fun about_record :: "wstate \<Rightarrow> bool" where
  "about_record (Sending (FailedToProcessRequest i e)) = True"
| "about_record (Sending e) = False"
| "about_record ws = True"

fun reporting :: "pstate \<Rightarrow> nat" where
  "reporting (PReport e) = 1"
| "reporting p = 0"

text \<open>What holds in every state of every run.\<close>

definition invariant :: "machine \<Rightarrow> bool" where
  "invariant m =
     ((requestsClosed m \<longleftrightarrow> producer m = PDone) \<and>
      (Exited \<in> set (workers m) \<longrightarrow> requestsClosed m) \<and>
      (errClosed m \<longrightarrow> (\<forall>ws \<in> set (workers m). ws = Exited)) \<and>
      (mainDone m \<longrightarrow> errClosed m \<and> errChan m = []) \<and>
      (panicked m \<longrightarrow> workers m = []) \<and>
      mset (discovered m) = mset (processed m) + inflight (workers m) + pending (producer m) \<and>
      (\<forall>ws \<in> set (workers m). about_record ws) \<and>
      (\<forall>c. producer m = PReport c \<longrightarrow> (\<exists>e. c = FailedToGetRequests e)) \<and>
      discovery_failures (report (events (world m))) + discovery_failures (errChan m) +
        reporting (producer m) = listingFailures m \<and>
      listingFailures m \<le> 1 \<and>
      ((\<exists>c. producer m = PCall c) \<or> (\<exists>r rest href. producer m = PSend r rest href) \<longrightarrow>
         listingFailures m = 0))"

text \<open>
  How the producer's actions end once a listing call has failed: with that call, then
  the report of the failure, then the close of \<open>requestsChan\<close>.
\<close>

definition failure_trace :: "machine \<Rightarrow> bool" where
  "failure_trace m =
     ((\<forall>e. producer m = PReport e \<longrightarrow> (\<exists>pre c. ptrace m = pre @ [Listing c])) \<and>
      (producer m = PClose \<and> 0 < listingFailures m \<longrightarrow>
         (\<exists>pre c e. ptrace m = pre @ [Listing c, Report (FailedToGetRequests e)])) \<and>
      (producer m = PDone \<and> 0 < listingFailures m \<longrightarrow>
         (\<exists>pre c e. ptrace m =
            pre @ [Listing c, Report (FailedToGetRequests e), CloseRequests])))"

text \<open>A schedule for two workers over the three pages, and the same listing breaking at page two.\<close>

definition sched_two :: "action list" where
  "sched_two =
     [Fetch, Hand 0, Hand 1, Fetch, Process 1, Hand 1, Process 0, Fetch, Hand 0, Process 1,
      Hand 1, CloseRequestsChan, Process 0, Process 1, Exit 0, Exit 1, CloseErrChan, Finish]"

definition env_listing_breaks :: env where
  "env_listing_breaks =
     sim_env (\<lambda>ep. case ep of cursorPath c \<Rightarrow> Inl (ErrLib ''gateway timeout'') | _ \<Rightarrow> remote_std ep)
       three_pages (\<lambda>resp. Inr [])"

definition sched_breaks :: "action list" where
  "sched_breaks =
     [Fetch, Hand 0, Process 0, Hand 0, Fetch, ReportFailure, Process 0, CloseRequestsChan,
      Exit 0, CloseErrChan, Drain, Finish]"

text \<open>Command lines: no workers, a negative number of workers, no token.\<close>

definition cfg_zero :: config where
  "cfg_zero = \<lparr>flag_api_url = ''https://acme.api.zengrc.com'', flag_token = ''id:secret'',
               flag_output_dir = ''out'', flag_workers = 0, flag_overwrite = False\<rparr>"

definition cfg_negative :: config where
  "cfg_negative = cfg_zero\<lparr>flag_workers := - 1\<rparr>"

definition cfg_no_token :: config where
  "cfg_no_token = cfg_zero\<lparr>flag_token := []\<rparr>"

text \<open>
  The remote some time later: the details of the record have changed, document 7 has
  changed, and document 8 can now be downloaded.
\<close>

definition env_later :: env where
  "env_later =
     sim_env (\<lambda>ep. case ep of
                     requestDetailsPath i \<Rightarrow> Inr (ok ''{meta v2}'')
                   | downloadFilePath i d \<Rightarrow>
                       if d = 7 then Inr (ok ''ZZZ'') else if d = 8 then Inr (ok ''BBB'')
                       else remote_std ep
                   | _ \<Rightarrow> remote_std ep)
       one_page (\<lambda>resp. Inr [fa, fb, fc])"

text \<open>
  The size of what is left to do in a run whose producer has the actions \<open>T\<close> before it
  at the start: every move of the run makes it smaller.
\<close>

fun weight :: "wstate \<Rightarrow> nat" where
  "weight Idle = 1"
| "weight (Busy r) = 4"
| "weight (Sending e) = 3"
| "weight Exited = 0"

definition remaining :: "pevent list \<Rightarrow> machine \<Rightarrow> nat" where
  "remaining T m =
     5 * (length T - length (ptrace m)) + sum_list (map weight (workers m)) + length (errChan m) +
     (if errClosed m then 0 else 1) + (if mainDone m then 0 else 1) + (if panicked m then 0 else 1)"

text \<open>
  The producer's actions in the run so far, followed by those it has still before it,
  make up \<open>T\<close>.
\<close>

definition on_track :: "env \<Rightarrow> pevent list \<Rightarrow> machine \<Rightarrow> bool" where
  "on_track E T m =
     (\<exists>n t w'. prun n E (producer m) (world m) = Some (t, w') \<and> ptrace m @ t = T)"

text \<open>
  An attachment whose display name is \<open>metadata.json\<close>, and the complete run with one
  worker and \<open>-overwrite\<close> over the record \<open>r1\<close> with this one attachment, into an empty
  output directory: the world afterwards, and the state in which the run ends.
\<close>

definition fm :: File where
  "fm = \<lparr>DocumentID = 7, Name = ''metadata.json'', UploadedAt = []\<rparr>"

definition after_overwrite :: world where
  "after_overwrite =
      \<lparr>dirs = {''out/record_1''},
       files = [''out/record_1/metadata.json'' \<mapsto> ''AAA''],
       events = [HttpDo requestsPath,
                 PrintProcessing 1 ''Evidence'', OsMkdirAll ''out/record_1'',
                 HttpDo (requestDetailsPath 1), OsWriteFile ''out/record_1/metadata.json'',
                 HttpDo (requestAttachmentsPath 1),
                 PrintDownloading ''metadata.json'',
                 HttpDo (downloadFilePath 1 7), OsCreate ''out/record_1/metadata.json'',
                 IoCopy ''out/record_1/metadata.json'']\<rparr>"

definition final_overwrite :: machine where
  "final_overwrite =
     \<lparr>producer = PDone, requestsClosed = True, workers = [Exited],
      errChan = [], errClosed = True, mainDone = True, panicked = False,
      world = after_overwrite,
      ptrace = [Listing [], Emit r1, CloseRequests], discovered = [r1], processed = [r1],
      listingFailures = 0\<rparr>"

section \<open>Properties\<close>

subsection \<open>The operations, one by one\<close>

lemma emit_simps [simp]:
  "dirs (emit e w) = dirs w" "files (emit e w) = files w" "events (emit e w) = events w @ [e]"
  by (simp_all add: emit_def)

lemma exists_at_emit [simp]: "exists_at (emit e w) p = exists_at w p"
  by (simp add: exists_at_def)

lemma MkdirAll_events: "MkdirAll E p w = (r, w') \<Longrightarrow> events w' = events w @ [OsMkdirAll p]"
  by (auto simp: MkdirAll_def Let_def split: if_splits option.splits)

lemma MkdirAll_files: "MkdirAll E p w = (r, w') \<Longrightarrow> files w' = files w"
  by (auto simp: MkdirAll_def Let_def split: if_splits option.splits)

lemma MkdirAll_ok: "MkdirAll E p w = (None, w') \<Longrightarrow> dirs w' = insert p (dirs w) \<and> p \<notin> dom (files w)"
  by (auto simp: MkdirAll_def Let_def split: if_splits option.splits)

lemma MkdirAll_fail: "MkdirAll E p w = (Some e, w') \<Longrightarrow> dirs w' = dirs w"
  by (auto simp: MkdirAll_def Let_def split: if_splits option.splits)

lemma WriteFile_events: "WriteFile E p d w = (r, w') \<Longrightarrow> events w' = events w @ [OsWriteFile p]"
  by (auto simp: WriteFile_def Let_def split: if_splits option.splits prod.splits)

lemma WriteFile_dirs: "WriteFile E p d w = (r, w') \<Longrightarrow> dirs w' = dirs w"
  by (auto simp: WriteFile_def Let_def split: if_splits option.splits prod.splits)

lemma WriteFile_ok: "WriteFile E p d w = (None, w') \<Longrightarrow> files w' = (files w)(p \<mapsto> d)"
  by (auto simp: WriteFile_def Let_def split: if_splits option.splits prod.splits)

lemma WriteFile_frame: "WriteFile E p d w = (r, w') \<Longrightarrow> q \<noteq> p \<Longrightarrow> files w' q = files w q"
  by (auto simp: WriteFile_def Let_def split: if_splits option.splits prod.splits)

lemma WriteFile_dom: "WriteFile E p d w = (r, w') \<Longrightarrow> files w q = Some b \<Longrightarrow> \<exists>b'. files w' q = Some b'"
  by (auto simp: WriteFile_def Let_def split: if_splits option.splits prod.splits)

lemma do_request_world: "do_request E req dec w = (r, w') \<Longrightarrow> w' = emit (HttpDo req) w"
  by (auto simp: do_request_def Let_def split: if_splits sum.splits)

lemma GetRequestDetails_world:
  "GetRequestDetails E i w = (r, w') \<Longrightarrow> w' = w \<or> w' = emit (HttpDo (requestDetailsPath i)) w"
  by (auto simp: GetRequestDetails_def newRequest_def dest: do_request_world split: sum.splits option.splits)

lemma GetAttachments_world:
  "GetAttachments E i w = (r, w') \<Longrightarrow> w' = w \<or> w' = emit (HttpDo (requestAttachmentsPath i)) w"
  by (auto simp: GetAttachments_def newRequest_def dest: do_request_world split: sum.splits option.splits)

lemma GetRequests_world:
  "GetRequests E c w = (r, w') \<Longrightarrow>
   w' = w \<or> w' = emit (HttpDo (if c \<noteq> [] then cursorPath c else requestsPath)) w"
  by (auto simp: GetRequests_def Let_def newRequest_def dest: do_request_world split: sum.splits option.splits if_splits)

lemma do_request_fst: "fst (do_request E req dec w) = fst (do_request E req dec w0)"
  by (auto simp: do_request_def Let_def split: if_splits sum.splits)

lemma GetAttachments_fst: "fst (GetAttachments E i w) = fst (GetAttachments E i w0)"
  by (auto simp: GetAttachments_def do_request_fst split: sum.splits)

lemma GetRequests_fst: "fst (GetRequests E c w) = fst (GetRequests E c w0)"
  by (auto simp: GetRequests_def Let_def do_request_fst split: sum.splits)

lemma GetRequestDetails_fst: "fst (GetRequestDetails E c w) = fst (GetRequestDetails E c w0)"
  by (auto simp: GetRequestDetails_def Let_def do_request_fst split: sum.splits)

subsection \<open>Downloads, metadata and the attachment loop\<close>

lemma downloading_append [simp]: "downloading (xs @ ys) = downloading xs @ downloading ys"
  by (induction xs rule: downloading.induct) simp_all

lemma Create_events: "Create E p w = (r, w') \<Longrightarrow> events w' = events w @ [OsCreate p]"
  by (auto simp: Create_def Let_def split: if_splits option.splits)

lemma Create_dirs: "Create E p w = (r, w') \<Longrightarrow> dirs w' = dirs w"
  by (auto simp: Create_def Let_def split: if_splits option.splits)

lemma Create_fail: "Create E p w = (Some e, w') \<Longrightarrow> files w' = files w"
  by (auto simp: Create_def Let_def split: if_splits option.splits)

lemma Create_ok: "Create E p w = (None, w') \<Longrightarrow> files w' = (files w)(p \<mapsto> [])"
  by (auto simp: Create_def Let_def split: if_splits option.splits)

lemma Create_None_iff: "fst (Create E p w) = None \<longleftrightarrow> p \<notin> dirs w \<and> createFault E p = None"
  by (auto simp: Create_def Let_def split: if_splits option.splits)

lemma DownloadAttachment_unfold:
  "DownloadAttachment E i a d ow w =
     (if \<not> ow \<and> exists_at w (join E d (Name a))
      then (None, emit (PrintSkipping (join E d (Name a))) (emit (OsStat (join E d (Name a))) w))
      else transfer E (downloadFilePath i (DocumentID a)) (join E d (Name a))
             (if ow then w else emit (OsStat (join E d (Name a))) w))"
  by (simp add: DownloadAttachment_def transfer_def Let_def)

lemma transfer_newRequest_fails:
  "newRequestErr E ep = Some e \<Longrightarrow> transfer E ep p w = (Some e, w)"
  by (simp add: transfer_def newRequest_def)

lemma transfer_http_fails:
  "newRequestErr E ep = None \<Longrightarrow> httpDo E ep = Inl e \<Longrightarrow>
   transfer E ep p w = (Some e, emit (HttpDo ep) w)"
  by (simp add: transfer_def newRequest_def Let_def)

lemma transfer_bad_status:
  "newRequestErr E ep = None \<Longrightarrow> httpDo E ep = Inr resp \<Longrightarrow> StatusCode resp \<noteq> 200 \<Longrightarrow>
   transfer E ep p w = (Some (ErrStatus (Status resp) (Body resp)), emit (HttpDo ep) w)"
  by (simp add: transfer_def newRequest_def Let_def)

lemma transfer_create_fails:
  "newRequestErr E ep = None \<Longrightarrow> httpDo E ep = Inr resp \<Longrightarrow> StatusCode resp = 200 \<Longrightarrow>
   p \<in> dirs w \<or> createFault E p \<noteq> None \<Longrightarrow>
   \<exists>e. transfer E ep p w = (Some e, emit (OsCreate p) (emit (HttpDo ep) w))"
  by (auto simp: transfer_def newRequest_def Let_def Create_def)

lemma transfer_copies:
  "newRequestErr E ep = None \<Longrightarrow> httpDo E ep = Inr resp \<Longrightarrow> StatusCode resp = 200 \<Longrightarrow>
   p \<notin> dirs w \<Longrightarrow> createFault E p = None \<Longrightarrow>
   transfer E ep p w =
     (BodyErr resp,
      (emit (IoCopy p) (emit (OsCreate p) (emit (HttpDo ep) w)))\<lparr>files := (files w)(p \<mapsto> Body resp)\<rparr>)"
  by (simp add: transfer_def newRequest_def Let_def Create_def Copy_def emit_def)

lemma transfer_cases:
  obtains
    (early) e new where "transfer E ep p w = (Some e, w\<lparr>events := events w @ new\<rparr>)"
      "set new \<subseteq> {HttpDo ep, OsCreate p}"
      "newRequestErr E ep = None \<Longrightarrow>
         (\<exists>resp. httpDo E ep = Inr resp \<and> StatusCode resp = 200) \<Longrightarrow>
         p \<in> dirs w \<or> createFault E p \<noteq> None"
  | (copy) resp where "newRequestErr E ep = None" "httpDo E ep = Inr resp" "StatusCode resp = 200"
      "p \<notin> dirs w" "createFault E p = None"
      "transfer E ep p w =
         (BodyErr resp,
          w\<lparr>files := (files w)(p \<mapsto> Body resp),
            events := events w @ [HttpDo ep, OsCreate p, IoCopy p]\<rparr>)"
proof (cases "newRequestErr E ep")
  case (Some e)
  then show ?thesis
    by (intro early [of e "[]"]) (simp_all add: transfer_newRequest_fails)
next
  case nr: None
  show ?thesis
  proof (cases "httpDo E ep")
    case (Inl e)
    with nr show ?thesis
      by (intro early [of e "[HttpDo ep]"]) (simp_all add: transfer_http_fails emit_def)
  next
    case (Inr resp)
    show ?thesis
    proof (cases "StatusCode resp = 200")
      case False
      with nr Inr show ?thesis
        by (intro early [of "ErrStatus (Status resp) (Body resp)" "[HttpDo ep]"])
           (simp_all add: transfer_bad_status emit_def)
    next
      case st: True
      show ?thesis
      proof (cases "p \<in> dirs w \<or> createFault E p \<noteq> None")
        case True
        from transfer_create_fails [OF nr Inr st True] obtain e where
          "transfer E ep p w = (Some e, emit (OsCreate p) (emit (HttpDo ep) w))" by blast
        with True show ?thesis
          by (intro early [of e "[HttpDo ep, OsCreate p]"]) (simp_all add: emit_def)
      next
        case False
        with nr Inr st show ?thesis
          by (intro copy [of resp]) (simp_all add: transfer_copies emit_def)
      qed
    qed
  qed
qed


lemma DownloadAttachment_cases:
  obtains
    (skip) "\<not> ow" "exists_at w (join E d (Name a))"
      "DownloadAttachment E i a d ow w =
         (None, w\<lparr>events := events w @ [OsStat (join E d (Name a)), PrintSkipping (join E d (Name a))]\<rparr>)"
  | (early) e new where "ow \<or> \<not> exists_at w (join E d (Name a))"
      "\<not> transfer_started E i a d w"
      "DownloadAttachment E i a d ow w = (Some e, w\<lparr>events := events w @ new\<rparr>)"
      "set new \<subseteq> {OsStat (join E d (Name a)), HttpDo (downloadFilePath i (DocumentID a)),
                   OsCreate (join E d (Name a))}"
  | (copy) resp new where "ow \<or> \<not> exists_at w (join E d (Name a))"
      "transfer_started E i a d w"
      "httpDo E (downloadFilePath i (DocumentID a)) = Inr resp"
      "DownloadAttachment E i a d ow w =
         (BodyErr resp,
          w\<lparr>files := (files w)(join E d (Name a) \<mapsto> Body resp), events := events w @ new\<rparr>)"
      "set new \<subseteq> {OsStat (join E d (Name a)), HttpDo (downloadFilePath i (DocumentID a)),
                   OsCreate (join E d (Name a)), IoCopy (join E d (Name a))}"
proof (cases "\<not> ow \<and> exists_at w (join E d (Name a))")
  case True
  then show ?thesis
    by (intro skip) (simp_all add: DownloadAttachment_unfold emit_def)
next
  case False
  let ?p = "join E d (Name a)"
  let ?ep = "downloadFilePath i (DocumentID a)"
  let ?w0 = "if ow then w else emit (OsStat ?p) w"
  let ?pre = "if ow then [] else [OsStat ?p]"
  have w0: "?w0 = w\<lparr>events := events w @ ?pre\<rparr>" by (simp add: emit_def)
  have da: "DownloadAttachment E i a d ow w = transfer E ?ep ?p ?w0"
    using False by (auto simp: DownloadAttachment_unfold)
  show ?thesis
  proof (cases rule: transfer_cases [of E ?ep ?p ?w0])
    case (early e new)
    have "\<not> transfer_started E i a d w"
    proof
      assume ts: "transfer_started E i a d w"
      then have "newRequestErr E ?ep = None"
        and "\<exists>resp. httpDo E ?ep = Inr resp \<and> StatusCode resp = 200"
        by (auto simp: transfer_started_def split: sum.splits)
      with early(3) have "?p \<in> dirs ?w0 \<or> createFault E ?p \<noteq> None" by blast
      with ts show False by (auto simp: transfer_started_def split: if_splits)
    qed
    moreover have "DownloadAttachment E i a d ow w = (Some e, w\<lparr>events := events w @ (?pre @ new)\<rparr>)"
      using da early(1) by (simp add: emit_def split: if_splits)
    moreover have "set (?pre @ new) \<subseteq> {OsStat ?p, HttpDo ?ep, OsCreate ?p}"
      using early(2) by auto
    ultimately show ?thesis using False by (intro that(2)) blast+
  next
    case (copy resp)
    have "transfer_started E i a d w"
      using copy by (auto simp: transfer_started_def split: if_splits)
    moreover have "DownloadAttachment E i a d ow w =
         (BodyErr resp,
          w\<lparr>files := (files w)(?p \<mapsto> Body resp),
            events := events w @ (?pre @ [HttpDo ?ep, OsCreate ?p, IoCopy ?p])\<rparr>)"
      using da copy(6) by (simp add: emit_def split: if_splits)
    moreover have "set (?pre @ [HttpDo ?ep, OsCreate ?p, IoCopy ?p])
        \<subseteq> {OsStat ?p, HttpDo ?ep, OsCreate ?p, IoCopy ?p}"
      by auto
    ultimately show ?thesis using False copy(2) by (intro that(3)) blast+
  qed
qed

lemma DownloadAttachment_dirs:
  assumes "DownloadAttachment E i a d ow w = (r, w')"
  shows "dirs w' = dirs w"
  by (rule DownloadAttachment_cases [where E = E and i = i and a = a and d = d and ow = ow and w = w])
     (use assms in auto)

lemma DownloadAttachment_frame:
  assumes "DownloadAttachment E i a d ow w = (r, w')" "q \<noteq> join E d (Name a)"
  shows "files w' q = files w q"
  by (rule DownloadAttachment_cases [where E = E and i = i and a = a and d = d and ow = ow and w = w])
     (use assms in auto)

lemma DownloadAttachment_skip:
  "\<not> ow \<Longrightarrow> exists_at w (join E d (Name a)) \<Longrightarrow>
   DownloadAttachment E i a d ow w =
     (None, emit (PrintSkipping (join E d (Name a))) (emit (OsStat (join E d (Name a))) w))"
  by (simp add: DownloadAttachment_unfold)

lemma DownloadAttachment_keep:
  assumes "DownloadAttachment E i a d False w = (r, w')" "files w q = Some b"
  shows "files w' q = Some b"
proof (cases "q = join E d (Name a)")
  case True
  with assms(2) have "exists_at w (join E d (Name a))" by (auto simp: exists_at_def)
  with assms show ?thesis by (auto simp: DownloadAttachment_skip)
next
  case False
  with assms show ?thesis by (simp add: DownloadAttachment_frame)
qed

lemma DownloadAttachment_dom:
  assumes "DownloadAttachment E i a d ow w = (r, w')" "files w q = Some b"
  shows "\<exists>b'. files w' q = Some b'"
  by (rule DownloadAttachment_cases [where E = E and i = i and a = a and d = d and ow = ow and w = w])
     (use assms in auto)

lemma DownloadAttachment_error_absent:
  "DownloadAttachment E i a d False w = (Some e, w') \<Longrightarrow> \<not> exists_at w (join E d (Name a))"
  by (auto simp: DownloadAttachment_skip)

lemma quiet_events:
  "set new \<subseteq> {OsStat p, HttpDo ep, OsCreate p, IoCopy p, PrintSkipping p} \<Longrightarrow> downloading new = []"
  by (induction new rule: downloading.induct) auto

lemma DownloadAttachment_events:
  assumes "DownloadAttachment E i a d ow w = (r, w')"
  shows "\<exists>new. events w' = events w @ new \<and> (\<forall>ev \<in> set new. stage ev = 4) \<and> downloading new = []"
proof (rule DownloadAttachment_cases [where E = E and i = i and a = a and d = d and ow = ow and w = w])
  assume "DownloadAttachment E i a d ow w =
       (None, w\<lparr>events := events w @ [OsStat (join E d (Name a)), PrintSkipping (join E d (Name a))]\<rparr>)"
  with assms show ?thesis by auto
next
  fix e new
  assume "DownloadAttachment E i a d ow w = (Some e, w\<lparr>events := events w @ new\<rparr>)"
    and sub: "set new \<subseteq> {OsStat (join E d (Name a)), HttpDo (downloadFilePath i (DocumentID a)),
                 OsCreate (join E d (Name a))}"
  with assms have "events w' = events w @ new" by auto
  moreover from sub have "\<forall>ev \<in> set new. stage ev = 4" by auto
  moreover from sub have "downloading new = []" by (intro quiet_events) auto
  ultimately show ?thesis by blast
next
  fix resp :: Response and new
  assume "DownloadAttachment E i a d ow w =
       (BodyErr resp,
        w\<lparr>files := (files w)(join E d (Name a) \<mapsto> Body resp), events := events w @ new\<rparr>)"
    and sub: "set new \<subseteq> {OsStat (join E d (Name a)), HttpDo (downloadFilePath i (DocumentID a)),
                 OsCreate (join E d (Name a)), IoCopy (join E d (Name a))}"
  with assms have "events w' = events w @ new" by auto
  moreover from sub have "\<forall>ev \<in> set new. stage ev = 4" by auto
  moreover from sub have "downloading new = []" by (intro quiet_events) auto
  ultimately show ?thesis by blast
qed

lemma DownloadAttachment_written:
  assumes "ow \<or> \<not> exists_at w (join E d (Name a))"
      and "transfer_started E i a d w"
      and "httpDo E (downloadFilePath i (DocumentID a)) = Inr resp"
      and "DownloadAttachment E i a d ow w = (r, w')"
  shows "r = BodyErr resp \<and> files w' = (files w)(join E d (Name a) \<mapsto> Body resp)"
  by (rule DownloadAttachment_cases [where E = E and i = i and a = a and d = d and ow = ow and w = w])
     (use assms in auto)

lemma do_request_eq: "do_request E req dec w = (fst (do_request E req dec w), emit (HttpDo req) w)"
  by (simp add: do_request_def Let_def split: sum.splits)

lemma GetRequestDetails_eq:
  "GetRequestDetails E i w =
     (fst (GetRequestDetails E i w),
      w\<lparr>events := events w @
           (if newRequestErr E (requestDetailsPath i) = None then [HttpDo (requestDetailsPath i)] else [])\<rparr>)"
proof (cases "newRequestErr E (requestDetailsPath i)")
  case None
  then have "GetRequestDetails E i w = do_request E (requestDetailsPath i) (decodeRequest E) w"
    by (simp add: GetRequestDetails_def newRequest_def)
  with None show ?thesis
    using do_request_eq [of E "requestDetailsPath i" "decodeRequest E" w] by (simp add: emit_def)
next
  case (Some e)
  then show ?thesis by (simp add: GetRequestDetails_def newRequest_def)
qed

lemma GetAttachments_eq:
  "GetAttachments E i w =
     (fst (GetAttachments E i w),
      w\<lparr>events := events w @
           (if newRequestErr E (requestAttachmentsPath i) = None
            then [HttpDo (requestAttachmentsPath i)] else [])\<rparr>)"
proof (cases "newRequestErr E (requestAttachmentsPath i)")
  case None
  then have "GetAttachments E i w = do_request E (requestAttachmentsPath i) (decodeAttachmentList E) w"
    by (simp add: GetAttachments_def newRequest_def)
  with None show ?thesis
    using do_request_eq [of E "requestAttachmentsPath i" "decodeAttachmentList E" w]
    by (simp add: emit_def)
next
  case (Some e)
  then show ?thesis by (simp add: GetAttachments_def newRequest_def)
qed

lemma saveMetadata_cases:
  assumes "saveMetadata E i d w = (r, w')"
  obtains
    (nowrite) e new where
      "r = Some e" "w' = w\<lparr>events := events w @ new\<rparr>"
      "set new \<subseteq> {HttpDo (requestDetailsPath i)}"
  | (writes) req data new where
      "fst (GetRequestDetails E i w) = Inr req" "marshalIndent E req = Inr data"
      "WriteFile E (join E d ''metadata.json'') data (w\<lparr>events := events w @ new\<rparr>) = (r, w')"
      "set new \<subseteq> {HttpDo (requestDetailsPath i)}"
proof -
  let ?new = "if newRequestErr E (requestDetailsPath i) = None
              then [HttpDo (requestDetailsPath i)] else []"
  have sub: "set ?new \<subseteq> {HttpDo (requestDetailsPath i)}" by auto
  note eq = GetRequestDetails_eq [of E i w]
  show ?thesis
  proof (cases "fst (GetRequestDetails E i w)")
    case (Inl e)
    with eq have "saveMetadata E i d w = (Some e, w\<lparr>events := events w @ ?new\<rparr>)"
      by (simp add: saveMetadata_def)
    with assms sub show ?thesis by (intro nowrite [of e ?new]) simp_all
  next
    case (Inr req)
    show ?thesis
    proof (cases "marshalIndent E req")
      case (Inl e)
      with eq Inr have "saveMetadata E i d w = (Some e, w\<lparr>events := events w @ ?new\<rparr>)"
        by (simp add: saveMetadata_def)
      with assms sub show ?thesis by (intro nowrite [of e ?new]) simp_all
    next
      case (Inr data)
      with eq \<open>fst (GetRequestDetails E i w) = Inr req\<close>
      have "saveMetadata E i d w =
          WriteFile E (join E d ''metadata.json'') data (w\<lparr>events := events w @ ?new\<rparr>)"
        by (simp add: saveMetadata_def)
      with assms \<open>fst (GetRequestDetails E i w) = Inr req\<close> Inr sub show ?thesis
        by (intro writes [of req data ?new]) simp_all
    qed
  qed
qed

lemma saveMetadata_dirs:
  assumes "saveMetadata E i d w = (r, w')"
  shows "dirs w' = dirs w"
  using assms by (cases rule: saveMetadata_cases) (auto dest: WriteFile_dirs)

lemma saveMetadata_frame:
  assumes "saveMetadata E i d w = (r, w')" "q \<noteq> join E d ''metadata.json''"
  shows "files w' q = files w q"
  using assms by (cases rule: saveMetadata_cases) (auto dest: WriteFile_frame)

lemma saveMetadata_dom:
  assumes "saveMetadata E i d w = (r, w')" "files w q = Some b"
  shows "\<exists>b'. files w' q = Some b'"
  using assms(1)
proof (cases rule: saveMetadata_cases)
  case (nowrite e new)
  with assms(2) show ?thesis by simp
next
  case (writes req data new)
  from WriteFile_dom [OF writes(3), of q b] assms(2) show ?thesis by simp
qed

lemma saveMetadata_ok:
  assumes "saveMetadata E i d w = (None, w')"
  shows "\<exists>req data. fst (GetRequestDetails E i w) = Inr req \<and> marshalIndent E req = Inr data \<and>
           files w' = (files w)(join E d ''metadata.json'' \<mapsto> data)"
  using assms by (cases rule: saveMetadata_cases) (auto dest: WriteFile_ok)

lemma saveMetadata_events:
  assumes "saveMetadata E i d w = (r, w')"
  shows "\<exists>new. events w' = events w @ new \<and> (\<forall>ev \<in> set new. stage ev = 2)"
  using assms
proof (cases rule: saveMetadata_cases)
  case (nowrite e new)
  then have "events w' = events w @ new" "\<forall>ev \<in> set new. stage ev = 2" by auto
  then show ?thesis by blast
next
  case (writes req data new)
  then have "events w' = events w @ (new @ [OsWriteFile (join E d ''metadata.json'')])"
    by (auto dest: WriteFile_events)
  moreover from writes(4)
  have "\<forall>ev \<in> set (new @ [OsWriteFile (join E d ''metadata.json'')]). stage ev = 2"
    by auto
  ultimately show ?thesis by blast
qed

lemma downloadAll_append:
  "downloadAll E i (xs @ ys) d ow w = downloadAll E i ys d ow (downloadAll E i xs d ow w)"
  by (induction xs arbitrary: w) (auto split: prod.splits option.splits)

lemma downloadAll_dirs: "dirs (downloadAll E i xs d ow w) = dirs w"
  by (induction xs arbitrary: w) (auto dest!: DownloadAttachment_dirs split: prod.splits option.splits)

lemma downloadAll_frame:
  "\<forall>a \<in> set xs. q \<noteq> join E d (Name a) \<Longrightarrow> files (downloadAll E i xs d ow w) q = files w q"
proof (induction xs arbitrary: w)
  case Nil
  then show ?case by simp
next
  case (Cons a xs)
  obtain r w1 where dl: "DownloadAttachment E i a d ow (emit (PrintDownloading (Name a)) w) = (r, w1)"
    by (cases "DownloadAttachment E i a d ow (emit (PrintDownloading (Name a)) w)")
  from Cons.prems have "q \<noteq> join E d (Name a)" by simp
  with dl have "files w1 q = files w q" by (auto dest: DownloadAttachment_frame)
  with Cons dl show ?case by (cases r) auto
qed

lemma downloadAll_keep:
  "files w q = Some b \<Longrightarrow> files (downloadAll E i xs d False w) q = Some b"
proof (induction xs arbitrary: w)
  case Nil
  then show ?case by simp
next
  case (Cons a xs)
  obtain r w1 where dl: "DownloadAttachment E i a d False (emit (PrintDownloading (Name a)) w) = (r, w1)"
    by (cases "DownloadAttachment E i a d False (emit (PrintDownloading (Name a)) w)")
  from Cons.prems have "files (emit (PrintDownloading (Name a)) w) q = Some b" by simp
  with dl have "files w1 q = Some b" by (rule DownloadAttachment_keep)
  with Cons dl show ?case by (cases r) auto
qed

lemma downloadAll_dom:
  "files w q = Some b \<Longrightarrow> \<exists>b'. files (downloadAll E i xs d ow w) q = Some b'"
proof (induction xs arbitrary: w b)
  case Nil
  then show ?case by simp
next
  case (Cons a xs)
  obtain r w1 where dl: "DownloadAttachment E i a d ow (emit (PrintDownloading (Name a)) w) = (r, w1)"
    by (cases "DownloadAttachment E i a d ow (emit (PrintDownloading (Name a)) w)")
  from Cons.prems have "files (emit (PrintDownloading (Name a)) w) q = Some b" by simp
  with dl obtain b1 where "files w1 q = Some b1" by (blast dest: DownloadAttachment_dom)
  with Cons.IH dl show ?case by (cases r) auto
qed

lemma downloadAll_events:
  "\<exists>new. events (downloadAll E i xs d ow w) = events w @ new \<and>
         (\<forall>ev \<in> set new. stage ev = 4) \<and> downloading new = map Name xs"
proof (induction xs arbitrary: w)
  case Nil
  then show ?case by simp
next
  case (Cons a xs)
  obtain r w1 where dl: "DownloadAttachment E i a d ow (emit (PrintDownloading (Name a)) w) = (r, w1)"
    by (cases "DownloadAttachment E i a d ow (emit (PrintDownloading (Name a)) w)")
  from DownloadAttachment_events [OF dl] obtain n1 where
    n1: "events w1 = events w @ [PrintDownloading (Name a)] @ n1" "\<forall>ev \<in> set n1. stage ev = 4"
      "downloading n1 = []"
    by auto
  show ?case
  proof (cases r)
    case None
    from Cons.IH [of w1] obtain n2 where
      n2: "events (downloadAll E i xs d ow w1) = events w1 @ n2" "\<forall>ev \<in> set n2. stage ev = 4"
        "downloading n2 = map Name xs"
      by auto
    with n1 dl None show ?thesis
      by (intro exI [of _ "[PrintDownloading (Name a)] @ n1 @ n2"]) auto
  next
    case (Some e)
    from Cons.IH [of "emit (LogDownloadError (Name a) i e) w1"] obtain n2 where
      n2: "events (downloadAll E i xs d ow (emit (LogDownloadError (Name a) i e) w1)) =
             events (emit (LogDownloadError (Name a) i e) w1) @ n2"
        "\<forall>ev \<in> set n2. stage ev = 4" "downloading n2 = map Name xs"
      by auto
    with n1 dl Some show ?thesis
      by (intro exI [of _ "[PrintDownloading (Name a)] @ n1 @ [LogDownloadError (Name a) i e] @ n2"]) auto
  qed
qed

lemma processRequest_cases:
  assumes "processRequest E r out ow w = (res, w')"
  obtains
    (mkdir) e where
      "MkdirAll E (recordDirOf E out (ID r)) (emit (PrintProcessing (ID r) (Title r)) w) = (Some e, w')"
      "res = Some (ErrCreatingDirectory (ID r) e)"
  | (meta) w1 e where
      "MkdirAll E (recordDirOf E out (ID r)) (emit (PrintProcessing (ID r) (Title r)) w) = (None, w1)"
      "saveMetadata E (ID r) (recordDirOf E out (ID r)) w1 = (Some e, w')"
      "res = Some (ErrSavingMetadata (ID r) e)"
  | (atts) w1 w2 e where
      "MkdirAll E (recordDirOf E out (ID r)) (emit (PrintProcessing (ID r) (Title r)) w) = (None, w1)"
      "saveMetadata E (ID r) (recordDirOf E out (ID r)) w1 = (None, w2)"
      "GetAttachments E (ID r) w2 = (Inl e, w')"
      "res = Some (ErrGettingAttachments (ID r) e)"
  | (loop) w1 w2 attachments w3 where
      "MkdirAll E (recordDirOf E out (ID r)) (emit (PrintProcessing (ID r) (Title r)) w) = (None, w1)"
      "saveMetadata E (ID r) (recordDirOf E out (ID r)) w1 = (None, w2)"
      "GetAttachments E (ID r) w2 = (Inr attachments, w3)"
      "res = None"
      "w' = downloadAll E (ID r) attachments (recordDirOf E out (ID r)) ow w3"
  using assms
  by (auto simp: processRequest_def Let_def split: prod.splits option.splits sum.splits)

subsection \<open>A download that fails\<close>

lemma DownloadAttachment_c3:
  "DownloadAttachment env_c3 1 file_c3 ''out'' True world_c3 =
     (Some (ErrLib ''unexpected EOF''),
      \<lparr>dirs = {''out''}, files = [''out/a.bin'' \<mapsto> ''par''],
       events = [HttpDo (downloadFilePath 1 7), OsCreate ''out/a.bin'', IoCopy ''out/a.bin'']\<rparr>)"
  by (simp add: DownloadAttachment_def env_c3_def sim_env_def world_c3_def file_c3_def
      plain_join_def newRequest_def emit_def Create_def Copy_def broken_def Let_def)

text \<open>
  C3, as stated, fails: the request succeeds with status 200, the body breaks off after
  the bytes \<open>par\<close>, \<open>DownloadAttachment\<close> returns the error, and the destination, which
  held \<open>old content\<close>, is left holding \<open>par\<close>.
\<close>

theorem C3_half_written_file_remains:
  "fst (DownloadAttachment env_c3 1 file_c3 ''out'' True world_c3) = Some (ErrLib ''unexpected EOF'') \<and>
   files world_c3 ''out/a.bin'' = Some ''old content'' \<and>
   files (snd (DownloadAttachment env_c3 1 file_c3 ''out'' True world_c3)) ''out/a.bin'' = Some ''par''"
  by (simp add: DownloadAttachment_c3) (simp add: world_c3_def)

text \<open>
  C3, amended: when \<open>DownloadAttachment\<close> returns an error, no directory changes; the
  files are unchanged when the error arises before the transfer starts (building the
  request, the HTTP call, a status other than 200, \<open>os.Create\<close>); and when the transfer
  started, the error is the one that stopped the body, and the destination holds exactly
  the bytes transferred before it, every other file unchanged.
\<close>

theorem C3_download_error_effect:
  assumes "DownloadAttachment E requestID attachment outputDir overwrite w = (Some e, w')"
  shows "dirs w' = dirs w \<and>
         (if transfer_started E requestID attachment outputDir w
          then (\<exists>resp. httpDo E (downloadFilePath requestID (DocumentID attachment)) = Inr resp \<and>
                  BodyErr resp = Some e \<and>
                  files w' = (files w)(join E outputDir (Name attachment) \<mapsto> Body resp))
          else files w' = files w)"
  using assms
  by (auto simp: DownloadAttachment_def transfer_started_def Let_def newRequest_def emit_def
      Create_def Copy_def split: if_splits option.splits sum.splits prod.splits)

theorem C3_download_error_effect_witness:
  "transfer_started env_c3 1 file_c3 ''out'' world_c3 \<and>
   fst (DownloadAttachment env_c3 1 file_c3 ''out'' True world_c3) = Some (ErrLib ''unexpected EOF'') \<and>
   files (snd (DownloadAttachment env_c3 1 file_c3 ''out'' True world_c3)) =
     (files world_c3)(''out/a.bin'' \<mapsto> ''par'')"
proof -
  have ts: "transfer_started env_c3 1 file_c3 ''out'' world_c3"
    by (simp add: transfer_started_def env_c3_def sim_env_def world_c3_def file_c3_def
        plain_join_def broken_def)
  have j: "join env_c3 ''out'' (Name file_c3) = ''out/a.bin''"
    by (simp add: env_c3_def sim_env_def file_c3_def plain_join_def)
  have h: "httpDo env_c3 (downloadFilePath 1 (DocumentID file_c3)) = Inr (broken ''par'')"
    by (simp add: env_c3_def sim_env_def)
  from C3_download_error_effect [OF DownloadAttachment_c3] ts j h show ?thesis
    by (simp add: DownloadAttachment_c3 broken_def)
qed

subsection \<open>The order of the steps of a record\<close>

lemma sorted_stage_const: "\<forall>ev \<in> set evs. stage ev = k \<Longrightarrow> sorted (map stage evs)"
  by (induction evs) auto

lemma GetAttachments_events:
  "GetAttachments E i w = (r, w') \<Longrightarrow>
   dirs w' = dirs w \<and> files w' = files w \<and>
   (\<exists>new. events w' = events w @ new \<and> (\<forall>ev \<in> set new. stage ev = 3))"
  using GetAttachments_eq [of E i w] by auto

lemma processRequest_order:
  assumes "processRequest E r out ow w = (res, w')"
  shows "(\<exists>new. events w' = events w @ new \<and> sorted (map stage new) \<and>
           (case res of
              None \<Rightarrow>
                (\<exists>atts. fst (GetAttachments E (ID r) w) = Inr atts \<and>
                   downloading new = map Name atts)
            | Some err \<Rightarrow>
                (\<exists>e. err = ErrCreatingDirectory (ID r) e \<and> (\<forall>ev \<in> set new. stage ev \<le> 1) \<or>
                     err = ErrSavingMetadata (ID r) e \<and> (\<forall>ev \<in> set new. stage ev \<le> 2) \<or>
                     err = ErrGettingAttachments (ID r) e \<and> (\<forall>ev \<in> set new. stage ev \<le> 3))))"
  using assms
proof (cases rule: processRequest_cases)
  case (mkdir e)
  from MkdirAll_events [OF mkdir(1)]
  have "events w' = events w @ [PrintProcessing (ID r) (Title r), OsMkdirAll (recordDirOf E out (ID r))]"
    by simp
  with mkdir(2) show ?thesis by auto
next
  case (meta w1 e)
  from MkdirAll_events [OF meta(1)]
  have 1: "events w1 = events w @ [PrintProcessing (ID r) (Title r), OsMkdirAll (recordDirOf E out (ID r))]"
    by simp
  from saveMetadata_events [OF meta(2)] obtain n2 where
    2: "events w' = events w1 @ n2" "\<forall>ev \<in> set n2. stage ev = 2" by blast
  let ?new = "[PrintProcessing (ID r) (Title r), OsMkdirAll (recordDirOf E out (ID r))] @ n2"
  have "events w' = events w @ ?new" using 1 2 by simp
  moreover have "sorted (map stage ?new)"
    using 2(2) sorted_stage_const [of n2 2] by (auto simp: sorted_append)
  moreover have "\<forall>ev \<in> set ?new. stage ev \<le> 2" using 2(2) by auto
  ultimately show ?thesis using meta(3) by (intro exI [of _ ?new]) auto
next
  case (atts w1 w2 e)
  from MkdirAll_events [OF atts(1)]
  have 1: "events w1 = events w @ [PrintProcessing (ID r) (Title r), OsMkdirAll (recordDirOf E out (ID r))]"
    by simp
  from saveMetadata_events [OF atts(2)] obtain n2 where
    2: "events w2 = events w1 @ n2" "\<forall>ev \<in> set n2. stage ev = 2" by blast
  from GetAttachments_events [OF atts(3)] obtain n3 where
    3: "events w' = events w2 @ n3" "\<forall>ev \<in> set n3. stage ev = 3" by blast
  let ?new = "[PrintProcessing (ID r) (Title r), OsMkdirAll (recordDirOf E out (ID r))] @ n2 @ n3"
  have "events w' = events w @ ?new" using 1 2 3 by simp
  moreover have "sorted (map stage ?new)"
    using 2(2) 3(2) sorted_stage_const [of n2 2] sorted_stage_const [of n3 3]
    by (auto simp: sorted_append)
  moreover have "\<forall>ev \<in> set ?new. stage ev \<le> 3" using 2(2) 3(2) by auto
  ultimately show ?thesis using atts(4) by (intro exI [of _ ?new]) auto
next
  case (loop w1 w2 attachments w3)
  from MkdirAll_events [OF loop(1)]
  have 1: "events w1 = events w @ [PrintProcessing (ID r) (Title r), OsMkdirAll (recordDirOf E out (ID r))]"
    by simp
  from saveMetadata_events [OF loop(2)] obtain n2 where
    2: "events w2 = events w1 @ n2" "\<forall>ev \<in> set n2. stage ev = 2" by blast
  from GetAttachments_events [OF loop(3)] obtain n3 where
    3: "events w3 = events w2 @ n3" "\<forall>ev \<in> set n3. stage ev = 3" by blast
  from downloadAll_events [of E "ID r" attachments "recordDirOf E out (ID r)" ow w3] loop(5)
  obtain n4 where
    4: "events w' = events w3 @ n4" "\<forall>ev \<in> set n4. stage ev = 4"
       "downloading n4 = map Name attachments" by auto
  have q2: "downloading n2 = []" using 2(2) by (induction n2 rule: downloading.induct) auto
  have q3: "downloading n3 = []" using 3(2) by (induction n3 rule: downloading.induct) auto
  let ?new = "[PrintProcessing (ID r) (Title r), OsMkdirAll (recordDirOf E out (ID r))] @ n2 @ n3 @ n4"
  have "events w' = events w @ ?new" using 1 2 3 4 by simp
  moreover have "sorted (map stage ?new)"
    using 2(2) 3(2) 4(2) sorted_stage_const [of n2 2] sorted_stage_const [of n3 3]
      sorted_stage_const [of n4 4]
    by (auto simp: sorted_append)
  moreover have "downloading ?new = map Name attachments" using q2 q3 4(3) by simp
  moreover from loop(3) have "fst (GetAttachments E (ID r) w) = Inr attachments"
    by (simp add: GetAttachments_fst [of E "ID r" w w2])
  ultimately show ?thesis using loop(4) by (intro exI [of _ ?new]) auto
qed

subsection \<open>Concrete runs\<close>

lemmas sim_defs = sim_env_def plain_join_def ok_def broken_def no_json_def remote_std_def
  one_page_def env_std_def env_no_list_def env_no_details_def r1_def fa_def fb_def fc_def
  empty_world_def blocked_world_def

lemmas run_defs = processRequest_def recordDirOf_def MkdirAll_def saveMetadata_def
  GetRequestDetails_def GetAttachments_def GetRequests_def newRequest_def do_request_def
  WriteFile_def DownloadAttachment_def Create_def Copy_def emit_def exists_at_def Let_def

lemma run_blocked:
  "processRequest (env_std [fa, fb]) r1 ''out'' False blocked_world =
     (Some (ErrCreatingDirectory 1 (ErrLib ''mkdir: not a directory'')),
      \<lparr>dirs = {}, files = [''out/record_1'' \<mapsto> ''x''],
       events = [PrintProcessing 1 ''Evidence'', OsMkdirAll ''out/record_1'']\<rparr>)"
  by (simp add: run_defs sim_defs)

lemma run_no_details:
  "processRequest env_no_details r1 ''out'' False empty_world =
     (Some (ErrSavingMetadata 1 (ErrLib ''timeout'')),
      \<lparr>dirs = {''out/record_1''}, files = Map.empty,
       events = [PrintProcessing 1 ''Evidence'', OsMkdirAll ''out/record_1'',
                 HttpDo (requestDetailsPath 1)]\<rparr>)"
  by (simp add: run_defs sim_defs)

lemma run_no_list:
  "processRequest env_no_list r1 ''out'' False empty_world =
     (Some (ErrGettingAttachments 1 (ErrLib ''timeout'')),
      \<lparr>dirs = {''out/record_1''}, files = [''out/record_1/metadata.json'' \<mapsto> ''{meta}''],
       events = [PrintProcessing 1 ''Evidence'', OsMkdirAll ''out/record_1'',
                 HttpDo (requestDetailsPath 1), OsWriteFile ''out/record_1/metadata.json'',
                 HttpDo (requestAttachmentsPath 1)]\<rparr>)"
  by (simp add: run_defs sim_defs)


subsection \<open>Hard failures\<close>

text \<open>
  C10: when \<open>processRequest\<close> ends in a hard failure, nothing that existed before is
  removed; when the metadata step fails, the record directory created before it is in
  place; when the attachment-list fetch fails, the directories are those from before plus
  the record directory, and the files are those from before plus \<open>metadata.json\<close>
  holding the document that was written.
\<close>

theorem C10_earlier_outputs_stay:
  assumes "processRequest E r out ow w = (Some err, w')"
  shows "(\<forall>q b. files w q = Some b \<longrightarrow> (\<exists>b'. files w' q = Some b')) \<and>
         dirs w \<subseteq> dirs w' \<and>
         (\<forall>e. err = ErrSavingMetadata (ID r) e \<longrightarrow>
            dirs w' = insert (recordDirOf E out (ID r)) (dirs w)) \<and>
         (\<forall>e. err = ErrGettingAttachments (ID r) e \<longrightarrow>
            dirs w' = insert (recordDirOf E out (ID r)) (dirs w) \<and>
            (\<exists>req data. fst (GetRequestDetails E (ID r) w) = Inr req \<and>
               marshalIndent E req = Inr data \<and>
               files w' = (files w)(join E (recordDirOf E out (ID r)) ''metadata.json'' \<mapsto> data)))"
  using assms
proof (cases rule: processRequest_cases)
  case (mkdir e)
  from MkdirAll_fail [OF mkdir(1)] MkdirAll_files [OF mkdir(1)] mkdir(2) show ?thesis
    by auto
next
  case (meta w1 e)
  from MkdirAll_ok [OF meta(1)] MkdirAll_files [OF meta(1)]
  have 1: "dirs w1 = insert (recordDirOf E out (ID r)) (dirs w)" "files w1 = files w"
    by auto
  from meta(2) have 2: "dirs w' = dirs w1" by (rule saveMetadata_dirs)
  have "\<exists>b'. files w' q = Some b'" if "files w q = Some b" for q b
    using saveMetadata_dom [OF meta(2), of q b] that 1 by simp
  with 1 2 meta(3) show ?thesis by auto
next
  case (atts w1 w2 e)
  from MkdirAll_ok [OF atts(1)] MkdirAll_files [OF atts(1)]
  have 1: "dirs w1 = insert (recordDirOf E out (ID r)) (dirs w)" "files w1 = files w"
    by auto
  from atts(2) have 2: "dirs w2 = dirs w1" by (rule saveMetadata_dirs)
  from saveMetadata_ok [OF atts(2)] obtain req data where
    3: "fst (GetRequestDetails E (ID r) w1) = Inr req" "marshalIndent E req = Inr data"
       "files w2 = (files w1)(join E (recordDirOf E out (ID r)) ''metadata.json'' \<mapsto> data)"
    by blast
  from GetAttachments_eq [of E "ID r" w2] atts(3) have 4: "dirs w' = dirs w2" "files w' = files w2"
    by auto
  from 3(1) have "fst (GetRequestDetails E (ID r) w) = Inr req"
    by (simp add: GetRequestDetails_fst [of E "ID r" w w1])
  with 1 2 3 4 atts(4) show ?thesis by auto
next
  case (loop w1 w2 attachments w3)
  then show ?thesis by simp
qed

theorem C10_earlier_outputs_stay_witness:
  "fst (processRequest env_no_list r1 ''out'' False empty_world) =
     Some (ErrGettingAttachments 1 (ErrLib ''timeout'')) \<and>
   dirs (snd (processRequest env_no_list r1 ''out'' False empty_world)) = {''out/record_1''} \<and>
   files (snd (processRequest env_no_list r1 ''out'' False empty_world)) =
     [''out/record_1/metadata.json'' \<mapsto> ''{meta}'']"
proof -
  have "ID r1 = 1" by (simp add: r1_def)
  with C10_earlier_outputs_stay [OF run_no_list] show ?thesis
    by (simp add: run_no_list)
qed






subsection \<open>Two descriptors with one name\<close>

lemma transfer_started_dirs:
  "dirs w' = dirs w \<Longrightarrow> transfer_started E i a d w' = transfer_started E i a d w"
  by (simp add: transfer_started_def)

lemma exists_at_cong:
  "dirs w' = dirs w \<Longrightarrow> files w' p = files w p \<Longrightarrow> exists_at w' p = exists_at w p"
  by (simp add: exists_at_def dom_def)

lemma downloadAll_step:
  "downloadAll E i (a # rest) d ow w =
     downloadAll E i rest d ow
       (case DownloadAttachment E i a d ow (emit (PrintDownloading (Name a)) w) of
          (Some e, w1) \<Rightarrow> emit (LogDownloadError (Name a) i e) w1
        | (None, w1) \<Rightarrow> w1)"
  by (auto split: prod.splits option.splits)

lemma downloadAll_events_mono:
  "ev \<in> set (events w) \<Longrightarrow> ev \<in> set (events (downloadAll E i xs d ow w))"
  using downloadAll_events [of E i xs d ow w] by auto

lemma last_writer:
  assumes later: "\<forall>z \<in> set zs. join E d (Name z) \<noteq> join E d (Name a)"
      and ts: "transfer_started E i a d w"
      and resp: "httpDo E (downloadFilePath i (DocumentID a)) = Inr resp"
  shows "files (downloadAll E i (xs @ a # zs) d True w) (join E d (Name a)) = Some (Body resp)"
proof -
  let ?p = "join E d (Name a)"
  let ?w1 = "emit (PrintDownloading (Name a)) (downloadAll E i xs d True w)"
  obtain r w2 where dl: "DownloadAttachment E i a d True ?w1 = (r, w2)"
    by (cases "DownloadAttachment E i a d True ?w1")
  have "dirs ?w1 = dirs w" by (simp add: downloadAll_dirs)
  with ts have ts1: "transfer_started E i a d ?w1"
    using transfer_started_dirs [of ?w1 w E i a d] by blast
  have "r = BodyErr resp \<and> files w2 = (files ?w1)(?p \<mapsto> Body resp)"
    by (rule DownloadAttachment_written [OF _ ts1 resp dl]) simp
  then have w2: "files w2 ?p = Some (Body resp)" by simp
  let ?w3 = "case (r, w2) of (Some e, w1) \<Rightarrow> emit (LogDownloadError (Name a) i e) w1 | (None, w1) \<Rightarrow> w1"
  have "files ?w3 ?p = Some (Body resp)" using w2 by (cases r) simp_all
  moreover have "downloadAll E i (xs @ a # zs) d True w = downloadAll E i zs d True ?w3"
    using dl by (simp add: downloadAll_append downloadAll_step del: downloadAll.simps)
  moreover have "files (downloadAll E i zs d True ?w3) ?p = files ?w3 ?p"
    using later by (intro downloadAll_frame) auto
  ultimately show ?thesis by simp
qed

lemma first_writer:
  assumes absent: "\<not> exists_at w (join E d (Name a))"
      and earlier: "\<forall>x \<in> set xs. join E d (Name x) \<noteq> join E d (Name a)"
      and ts: "transfer_started E i a d w"
      and resp: "httpDo E (downloadFilePath i (DocumentID a)) = Inr resp"
  shows "files (downloadAll E i (xs @ a # rest) d False w) (join E d (Name a)) = Some (Body resp)"
proof -
  let ?p = "join E d (Name a)"
  let ?w1 = "emit (PrintDownloading (Name a)) (downloadAll E i xs d False w)"
  obtain r w2 where dl: "DownloadAttachment E i a d False ?w1 = (r, w2)"
    by (cases "DownloadAttachment E i a d False ?w1")
  have d1: "dirs ?w1 = dirs w" by (simp add: downloadAll_dirs)
  have "files (downloadAll E i xs d False w) ?p = files w ?p"
    using earlier by (intro downloadAll_frame) auto
  then have "files ?w1 ?p = files w ?p" by simp
  with d1 absent have ab1: "\<not> exists_at ?w1 ?p"
    using exists_at_cong [of ?w1 w ?p] by blast
  from d1 ts have ts1: "transfer_started E i a d ?w1"
    using transfer_started_dirs [of ?w1 w E i a d] by blast
  have "r = BodyErr resp \<and> files w2 = (files ?w1)(?p \<mapsto> Body resp)"
    by (rule DownloadAttachment_written [OF _ ts1 resp dl]) (use ab1 in simp)
  then have w2: "files w2 ?p = Some (Body resp)" by simp
  let ?w3 = "case (r, w2) of (Some e, w1) \<Rightarrow> emit (LogDownloadError (Name a) i e) w1 | (None, w1) \<Rightarrow> w1"
  have "files ?w3 ?p = Some (Body resp)" using w2 by (cases r) simp_all
  moreover have "downloadAll E i (xs @ a # rest) d False w = downloadAll E i rest d False ?w3"
    using dl by (simp add: downloadAll_append downloadAll_step del: downloadAll.simps)
  ultimately show ?thesis by (simp add: downloadAll_keep)
qed

lemma second_skipped:
  assumes "files w (join E d (Name a)) = Some b"
  shows "PrintSkipping (join E d (Name a)) \<in> set (events (downloadAll E i (ys @ a # zs) d False w))"
proof -
  let ?p = "join E d (Name a)"
  let ?w1 = "emit (PrintDownloading (Name a)) (downloadAll E i ys d False w)"
  from assms have "files ?w1 ?p = Some b" by (simp add: downloadAll_keep)
  then have "exists_at ?w1 ?p" by (auto simp: exists_at_def)
  then have dl: "DownloadAttachment E i a d False ?w1 =
      (None, emit (PrintSkipping ?p) (emit (OsStat ?p) ?w1))"
    by (simp add: DownloadAttachment_skip)
  have "downloadAll E i (ys @ a # zs) d False w =
      downloadAll E i zs d False (emit (PrintSkipping ?p) (emit (OsStat ?p) ?w1))"
    using dl by (simp add: downloadAll_append downloadAll_step del: downloadAll.simps)
  then show ?thesis by (simp add: downloadAll_events_mono)
qed

lemma hard_steps_world:
  assumes "MkdirAll E dir (emit ev w) = (None, w1)" "saveMetadata E i dir w1 = (None, w2)"
      and "GetAttachments E i w2 = (x, w3)"
  shows "dirs w3 = insert dir (dirs w) \<and>
         (\<exists>data. files w3 = (files w)(join E dir ''metadata.json'' \<mapsto> data))"
proof -
  from MkdirAll_ok [OF assms(1)] MkdirAll_files [OF assms(1)]
  have 1: "dirs w1 = insert dir (dirs w)" "files w1 = files w" by auto
  from saveMetadata_dirs [OF assms(2)] have 2: "dirs w2 = dirs w1" .
  from saveMetadata_ok [OF assms(2)] obtain data where
    3: "files w2 = (files w1)(join E dir ''metadata.json'' \<mapsto> data)" by blast
  from GetAttachments_eq [of E i w2] assms(3) have "dirs w3 = dirs w2" "files w3 = files w2"
    by auto
  with 1 2 3 show ?thesis by auto
qed

lemma run_same_name:
  "processRequest (env_std [fa, fa2]) r1 ''out'' False empty_world =
     (None,
      \<lparr>dirs = {''out/record_1''},
       files = [''out/record_1/metadata.json'' \<mapsto> ''{meta}'', ''out/record_1/a.bin'' \<mapsto> ''AAA''],
       events = [PrintProcessing 1 ''Evidence'', OsMkdirAll ''out/record_1'',
                 HttpDo (requestDetailsPath 1), OsWriteFile ''out/record_1/metadata.json'',
                 HttpDo (requestAttachmentsPath 1),
                 PrintDownloading ''a.bin'', OsStat ''out/record_1/a.bin'',
                 HttpDo (downloadFilePath 1 7), OsCreate ''out/record_1/a.bin'',
                 IoCopy ''out/record_1/a.bin'',
                 PrintDownloading ''a.bin'', OsStat ''out/record_1/a.bin'',
                 PrintSkipping ''out/record_1/a.bin'']\<rparr>)"
  by (simp add: run_defs sim_defs fa2_def)

text \<open>
  C5, as stated, fails for the skip-existing policy: of two descriptors named \<open>a.bin\<close>,
  the first (document \<open>AAA\<close>) is written, the second (document \<open>CCC\<close>) finds the file
  in place and is skipped, and the file ends holding the first descriptor's bytes.
\<close>

theorem C5_second_is_skipped:
  "Name fa = Name fa2 \<and>
   httpDo (env_std [fa, fa2]) (downloadFilePath 1 (DocumentID fa2)) = Inr (ok ''CCC'') \<and>
   files (snd (processRequest (env_std [fa, fa2]) r1 ''out'' False empty_world))
     ''out/record_1/a.bin'' = Some ''AAA''"
  by (simp add: run_same_name) (simp add: sim_defs fa2_def)

text \<open>
  C5, amended: let the attachment list of a record hold two descriptors \<open>a1\<close>, \<open>a2\<close> with
  the same display name, \<open>a1\<close> first, and let processing get through the attachment loop.
  With \<open>overwrite\<close> set, and no descriptor after \<open>a2\<close> going to the same destination, the
  destination ends holding the body of \<open>a2\<close>'s download, once that download gets as far as
  the transfer. With \<open>overwrite\<close> unset (skip existing), a destination that did not exist
  and that no earlier descriptor goes to ends holding the body of \<open>a1\<close>'s download, and
  \<open>a2\<close> is skipped.
\<close>

theorem C5_same_name_by_policy:
  assumes run: "processRequest E r out overwrite w = (None, w')"
      and atts: "fst (GetAttachments E (ID r) w) = Inr (pre @ a1 # mid @ a2 # post)"
      and same: "Name a1 = Name a2"
  shows "(overwrite \<longrightarrow>
            (\<forall>z \<in> set post. join E (recordDirOf E out (ID r)) (Name z) \<noteq>
                              join E (recordDirOf E out (ID r)) (Name a2)) \<longrightarrow>
            transfer_started E (ID r) a2 (recordDirOf E out (ID r)) w' \<longrightarrow>
            httpDo E (downloadFilePath (ID r) (DocumentID a2)) = Inr resp2 \<longrightarrow>
            files w' (join E (recordDirOf E out (ID r)) (Name a2)) = Some (Body resp2)) \<and>
         (\<not> overwrite \<longrightarrow>
            \<not> exists_at w (join E (recordDirOf E out (ID r)) (Name a1)) \<longrightarrow>
            join E (recordDirOf E out (ID r)) (Name a1) \<noteq>
              join E (recordDirOf E out (ID r)) ''metadata.json'' \<longrightarrow>
            join E (recordDirOf E out (ID r)) (Name a1) \<noteq> recordDirOf E out (ID r) \<longrightarrow>
            (\<forall>x \<in> set pre. join E (recordDirOf E out (ID r)) (Name x) \<noteq>
                             join E (recordDirOf E out (ID r)) (Name a1)) \<longrightarrow>
            transfer_started E (ID r) a1 (recordDirOf E out (ID r)) w' \<longrightarrow>
            httpDo E (downloadFilePath (ID r) (DocumentID a1)) = Inr resp1 \<longrightarrow>
            files w' (join E (recordDirOf E out (ID r)) (Name a1)) = Some (Body resp1) \<and>
            PrintSkipping (join E (recordDirOf E out (ID r)) (Name a2)) \<in> set (events w'))"
  using run
proof (cases rule: processRequest_cases)
  case (loop w1 w2 attachments w3)
  let ?d = "recordDirOf E out (ID r)"
  let ?i = "ID r"
  from hard_steps_world [OF loop(1,2,3)] obtain data where
    w3: "dirs w3 = insert ?d (dirs w)" "files w3 = (files w)(join E ?d ''metadata.json'' \<mapsto> data)"
    by blast
  from loop(3) atts have list: "attachments = pre @ a1 # mid @ a2 # post"
    by (simp add: GetAttachments_fst [of E ?i w w2])
  have dw: "dirs w' = dirs w3" by (simp add: loop(5) downloadAll_dirs)
  have over: "files w' (join E ?d (Name a2)) = Some (Body resp2)"
    if ow: overwrite
      and later: "\<forall>z \<in> set post. join E ?d (Name z) \<noteq> join E ?d (Name a2)"
      and ts: "transfer_started E ?i a2 ?d w'"
      and resp: "httpDo E (downloadFilePath ?i (DocumentID a2)) = Inr resp2"
  proof -
    from ts dw have "transfer_started E ?i a2 ?d w3"
      using transfer_started_dirs [of w' w3 E ?i a2 ?d] by blast
    from last_writer [OF later this resp, of "pre @ a1 # mid"] show ?thesis
      using ow by (simp add: loop(5) list)
  qed
  have skip: "files w' (join E ?d (Name a1)) = Some (Body resp1) \<and>
              PrintSkipping (join E ?d (Name a2)) \<in> set (events w')"
    if ow: "\<not> overwrite"
      and absent: "\<not> exists_at w (join E ?d (Name a1))"
      and nm: "join E ?d (Name a1) \<noteq> join E ?d ''metadata.json''"
      and nd: "join E ?d (Name a1) \<noteq> ?d"
      and earlier: "\<forall>x \<in> set pre. join E ?d (Name x) \<noteq> join E ?d (Name a1)"
      and ts: "transfer_started E ?i a1 ?d w'"
      and resp: "httpDo E (downloadFilePath ?i (DocumentID a1)) = Inr resp1"
  proof -
    from ts dw have ts3: "transfer_started E ?i a1 ?d w3"
      using transfer_started_dirs [of w' w3 E ?i a1 ?d] by blast
    from absent nm nd w3 have ab3: "\<not> exists_at w3 (join E ?d (Name a1))"
      by (auto simp: exists_at_def)
    from first_writer [OF ab3 earlier ts3 resp, of "mid @ a2 # post"]
    have 1: "files w' (join E ?d (Name a1)) = Some (Body resp1)"
      using ow by (simp add: loop(5) list)
    from first_writer [OF ab3 earlier ts3 resp, of "[]"]
    have "files (downloadAll E ?i (pre @ [a1]) ?d False w3) (join E ?d (Name a2)) = Some (Body resp1)"
      using same by simp
    from second_skipped [OF this, of ?i mid post]
    have "PrintSkipping (join E ?d (Name a2)) \<in> set (events w')"
      using ow by (simp add: loop(5) list downloadAll_append [symmetric] del: downloadAll.simps)
    with 1 show ?thesis by blast
  qed
  from over skip show ?thesis by blast
qed simp_all

lemma run_same_name_overwrite:
  "processRequest (env_std [fa, fa2]) r1 ''out'' True empty_world =
     (None,
      \<lparr>dirs = {''out/record_1''},
       files = [''out/record_1/metadata.json'' \<mapsto> ''{meta}'', ''out/record_1/a.bin'' \<mapsto> ''CCC''],
       events = [PrintProcessing 1 ''Evidence'', OsMkdirAll ''out/record_1'',
                 HttpDo (requestDetailsPath 1), OsWriteFile ''out/record_1/metadata.json'',
                 HttpDo (requestAttachmentsPath 1),
                 PrintDownloading ''a.bin'',
                 HttpDo (downloadFilePath 1 7), OsCreate ''out/record_1/a.bin'',
                 IoCopy ''out/record_1/a.bin'',
                 PrintDownloading ''a.bin'',
                 HttpDo (downloadFilePath 1 9), OsCreate ''out/record_1/a.bin'',
                 IoCopy ''out/record_1/a.bin'']\<rparr>)"
  by (simp add: run_defs sim_defs fa2_def)

theorem C5_same_name_by_policy_witness:
  "files (snd (processRequest (env_std [fa, fa2]) r1 ''out'' True empty_world))
     ''out/record_1/a.bin'' = Some ''CCC'' \<and>
   files (snd (processRequest (env_std [fa, fa2]) r1 ''out'' False empty_world))
     ''out/record_1/a.bin'' = Some ''AAA'' \<and>
   PrintSkipping ''out/record_1/a.bin'' \<in>
     set (events (snd (processRequest (env_std [fa, fa2]) r1 ''out'' False empty_world)))"
proof -
  let ?E = "env_std [fa, fa2]"
  let ?d = "recordDirOf ?E ''out'' (ID r1)"
  have atts: "fst (GetAttachments ?E (ID r1) empty_world) = Inr ([] @ fa # [] @ fa2 # [])"
    by (simp add: run_defs sim_defs)
  have same: "Name fa = Name fa2" by (simp add: fa_def fa2_def)
  have pd: "?d = ''out/record_1''"
    and p1: "join ?E ''out/record_1'' (Name fa) = ''out/record_1/a.bin''"
    and p2: "join ?E ''out/record_1'' (Name fa2) = ''out/record_1/a.bin''"
    and pm: "join ?E ''out/record_1'' ''metadata.json'' = ''out/record_1/metadata.json''"
    by (simp_all add: run_defs sim_defs fa2_def)
  have h1: "httpDo ?E (downloadFilePath (ID r1) (DocumentID fa)) = Inr (ok ''AAA'')"
    and h2: "httpDo ?E (downloadFilePath (ID r1) (DocumentID fa2)) = Inr (ok ''CCC'')"
    by (simp_all add: sim_defs fa2_def)
  have t2: "transfer_started ?E (ID r1) fa2 ?d
              (snd (processRequest ?E r1 ''out'' True empty_world))"
    by (simp add: run_same_name_overwrite) (simp add: transfer_started_def run_defs sim_defs fa2_def)
  have t1: "transfer_started ?E (ID r1) fa ?d
              (snd (processRequest ?E r1 ''out'' False empty_world))"
    by (simp add: run_same_name) (simp add: transfer_started_def run_defs sim_defs fa2_def)
  have ab: "\<not> exists_at empty_world ''out/record_1/a.bin''"
    by (simp add: exists_at_def empty_world_def)
  have r_t: "processRequest ?E r1 ''out'' True empty_world =
      (None, snd (processRequest ?E r1 ''out'' True empty_world))"
    by (simp add: run_same_name_overwrite)
  have r_f: "processRequest ?E r1 ''out'' False empty_world =
      (None, snd (processRequest ?E r1 ''out'' False empty_world))"
    by (simp add: run_same_name)
  from C5_same_name_by_policy [OF r_t atts same, of "ok ''CCC''"] t2 h2
  have a: "files (snd (processRequest ?E r1 ''out'' True empty_world)) ''out/record_1/a.bin'' =
             Some ''CCC''"
    by (simp add: pd p2 ok_def)
  from C5_same_name_by_policy [OF r_f atts same, of _ "ok ''AAA''"] t1 h1 ab
  have b: "files (snd (processRequest ?E r1 ''out'' False empty_world)) ''out/record_1/a.bin'' =
             Some ''AAA'' \<and>
           PrintSkipping ''out/record_1/a.bin'' \<in>
             set (events (snd (processRequest ?E r1 ''out'' False empty_world)))"
    by (simp add: p1 p2 pm pd ok_def)
  from a b show ?thesis by blast
qed

subsection \<open>A failed download is logged, not sent\<close>

lemmas machine_defs = step_def init_def sendErr_def after_page_def

lemma empty_world_fresh [simp]: "empty_world\<lparr>events := []\<rparr> = empty_world"
  by (simp add: empty_world_def)

lemma listing_std:
  "GetRequests (env_std atts) [] w =
     (Inr \<lparr>Data = [r1], NextHref = []\<rparr>, emit (HttpDo requestsPath) w)"
  by (simp add: GetRequests_def newRequest_def do_request_def Let_def env_std_def sim_env_def
      remote_std_def ok_def one_page_def)

lemma run_three_listed:
  "processRequest (env_std [fa, fb, fc]) r1 ''out'' False (emit (HttpDo requestsPath) empty_world) =
     (None, after_three)"
  by (simp add: run_defs sim_defs after_three_def)

lemma run_pipeline_three:
  "exec (env_std [fa, fb, fc]) ''out'' False
     [Fetch, Hand 0, Process 0, CloseRequestsChan, Exit 0, CloseErrChan, Finish]
     (init 1 empty_world) = Some final_three"
  by (simp add: machine_defs listing_std run_three_listed final_three_def)

text \<open>
  C4 does not hold of the code, and the code is at fault. The errors of the workers are
  to reach the main goroutine through \<open>errChan\<close> (\<open>Collect and log any errors that
  occurred during processing\<close>), and the three hard failures of \<open>processRequest\<close> do:
  they are returned and sent. A failed download alone is logged where it happens and
  dropped. In this complete run with one worker the download of \<open>b.bin\<close> fails;
  \<open>processRequest\<close> returns nil, the failure is in the worker's log only, and the final
  report, which is everything that went through \<open>errChan\<close>, is empty.
\<close>

theorem C4_failed_download_not_in_report:
  "exec (env_std [fa, fb, fc]) ''out'' False
     [Fetch, Hand 0, Process 0, CloseRequestsChan, Exit 0, CloseErrChan, Finish]
     (init 1 empty_world) = Some final_three \<and>
   mainDone final_three \<and>
   LogDownloadError ''b.bin'' 1 (ErrLib ''connection reset'') \<in> set (events (world final_three)) \<and>
   report (events (world final_three)) = []"
  by (intro conjI, rule run_pipeline_three) (simp_all add: final_three_def after_three_def)

lemma report_stage: "\<forall>ev \<in> set evs. stage ev \<le> 4 \<Longrightarrow> report evs = []"
  by (induction evs rule: report.induct) auto

lemma report_append [simp]: "report (xs @ ys) = report xs @ report ys"
  by (induction xs rule: report.induct) auto

lemma processRequest_report:
  assumes "processRequest E r out ow w = (res, w')"
  shows "report (events w') = report (events w)"
proof -
  from processRequest_order [OF assms] obtain new where
    new: "events w' = events w @ new" "sorted (map stage new)"
      "case res of None \<Rightarrow> True
       | Some err \<Rightarrow> \<exists>e. err = ErrCreatingDirectory (ID r) e \<and> (\<forall>ev \<in> set new. stage ev \<le> 1) \<or>
                         err = ErrSavingMetadata (ID r) e \<and> (\<forall>ev \<in> set new. stage ev \<le> 2) \<or>
                         err = ErrGettingAttachments (ID r) e \<and> (\<forall>ev \<in> set new. stage ev \<le> 3)"
    by (auto split: option.splits)
  have "\<forall>ev \<in> set new. stage ev \<le> 4"
    using assms
  proof (cases rule: processRequest_cases)
    case (loop w1 w2 attachments w3)
    from MkdirAll_events [OF loop(1)]
    have 1: "events w1 = events w @ [PrintProcessing (ID r) (Title r), OsMkdirAll (recordDirOf E out (ID r))]"
      by simp
    from saveMetadata_events [OF loop(2)] obtain n2 where
      2: "events w2 = events w1 @ n2" "\<forall>ev \<in> set n2. stage ev = 2" by blast
    from GetAttachments_events [OF loop(3)] obtain n3 where
      3: "events w3 = events w2 @ n3" "\<forall>ev \<in> set n3. stage ev = 3" by blast
    from downloadAll_events [of E "ID r" attachments "recordDirOf E out (ID r)" ow w3] loop(5)
    obtain n4 where 4: "events w' = events w3 @ n4" "\<forall>ev \<in> set n4. stage ev = 4" by auto
    from 1 2 3 4 new(1)
    have "new = [PrintProcessing (ID r) (Title r), OsMkdirAll (recordDirOf E out (ID r))] @ n2 @ n3 @ n4"
      by simp
    with 2(2) 3(2) 4(2) show ?thesis by auto
  qed (use new(3) in \<open>auto dest: order_trans\<close>)
  with new(1) show ?thesis by (simp add: report_stage)
qed

lemma downloadAll_logs_failure:
  assumes "DownloadAttachment E i a d ow (emit (PrintDownloading (Name a)) (downloadAll E i xs d ow w)) =
             (Some e, wa)"
  shows "LogDownloadError (Name a) i e \<in> set (events (downloadAll E i (xs @ a # ys) d ow w))"
proof -
  have "downloadAll E i (xs @ a # ys) d ow w =
          downloadAll E i ys d ow (emit (LogDownloadError (Name a) i e) wa)"
    using assms by (simp add: downloadAll_append downloadAll_step del: downloadAll.simps)
  then show ?thesis by (simp add: downloadAll_events_mono)
qed

text \<open>
  The same for every record and every failed download: when the record directory, the
  metadata and the attachment list of a record succeed, and the download of one of its
  attachments fails, \<open>processRequest\<close> returns nil; the failure is logged by the worker
  with the attachment's name and the record ID; every attachment of the list is still
  attempted, in list order; nothing is added to the final report; and the worker that
  processes the record goes back to waiting for the next one without sending anything to
  \<open>errChan\<close>.
\<close>

lemma failed_download_is_only_logged:
  assumes mk: "MkdirAll E (recordDirOf E out (ID r)) (emit (PrintProcessing (ID r) (Title r)) w) = (None, w1)"
      and sm: "saveMetadata E (ID r) (recordDirOf E out (ID r)) w1 = (None, w2)"
      and ga: "GetAttachments E (ID r) w2 = (Inr (xs @ a # ys), w3)"
      and dl: "DownloadAttachment E (ID r) a (recordDirOf E out (ID r)) overwrite
                 (emit (PrintDownloading (Name a))
                    (downloadAll E (ID r) xs (recordDirOf E out (ID r)) overwrite w3)) = (Some e, wa)"
  shows "(\<exists>w'. processRequest E r out overwrite w = (None, w') \<and>
            LogDownloadError (Name a) (ID r) e \<in> set (events w') \<and>
            (\<exists>new. events w' = events w3 @ new \<and> downloading new = map Name (xs @ a # ys)) \<and>
            report (events w') = report (events w)) \<and>
         (\<forall>m i. world m = w \<and> i < length (workers m) \<and> workers m ! i = Busy r \<and>
                 \<not> mainDone m \<and> \<not> panicked m \<longrightarrow>
            (\<exists>m'. step E out overwrite (Process i) m = Some m' \<and>
                   workers m' = (workers m)[i := Idle] \<and> errChan m' = errChan m))"
proof -
  let ?d = "recordDirOf E out (ID r)"
  let ?w' = "downloadAll E (ID r) (xs @ a # ys) ?d overwrite w3"
  have run: "processRequest E r out overwrite w = (None, ?w')"
    using mk sm ga by (simp add: processRequest_def Let_def)
  have 1: "LogDownloadError (Name a) (ID r) e \<in> set (events ?w')"
    using dl by (rule downloadAll_logs_failure)
  from downloadAll_events [of E "ID r" "xs @ a # ys" ?d overwrite w3]
  have 2: "\<exists>new. events ?w' = events w3 @ new \<and> downloading new = map Name (xs @ a # ys)"
    by blast
  have 3: "report (events ?w') = report (events w)"
    using run by (rule processRequest_report)
  have 4: "\<exists>m'. step E out overwrite (Process i) m = Some m' \<and>
                 workers m' = (workers m)[i := Idle] \<and> errChan m' = errChan m"
    if "world m = w" "i < length (workers m)" "workers m ! i = Busy r"
       "\<not> mainDone m" "\<not> panicked m" for m i
    using that run by (simp add: step_def)
  from run 1 2 3 4 show ?thesis by blast
qed

lemma failed_download_is_only_logged_example:
  "fst (processRequest (env_std [fa, fb, fc]) r1 ''out'' False empty_world) = None \<and>
   LogDownloadError ''b.bin'' 1 (ErrLib ''connection reset'') \<in>
     set (events (snd (processRequest (env_std [fa, fb, fc]) r1 ''out'' False empty_world))) \<and>
   report (events (snd (processRequest (env_std [fa, fb, fc]) r1 ''out'' False empty_world))) = [] \<and>
   (\<exists>m'. step (env_std [fa, fb, fc]) ''out'' False (Process 0)
            ((init 1 empty_world)\<lparr>workers := [Busy r1]\<rparr>) = Some m' \<and>
          workers m' = [Idle] \<and> errChan m' = [])"
proof -
  let ?E = "env_std [fa, fb, fc]"
  let ?w1 = "\<lparr>dirs = {''out/record_1''}, files = Map.empty,
              events = [PrintProcessing 1 ''Evidence'', OsMkdirAll ''out/record_1'']\<rparr>"
  let ?w2 = "\<lparr>dirs = {''out/record_1''}, files = [''out/record_1/metadata.json'' \<mapsto> ''{meta}''],
              events = [PrintProcessing 1 ''Evidence'', OsMkdirAll ''out/record_1'',
                        HttpDo (requestDetailsPath 1), OsWriteFile ''out/record_1/metadata.json'']\<rparr>"
  let ?w3 = "\<lparr>dirs = {''out/record_1''}, files = [''out/record_1/metadata.json'' \<mapsto> ''{meta}''],
              events = [PrintProcessing 1 ''Evidence'', OsMkdirAll ''out/record_1'',
                        HttpDo (requestDetailsPath 1), OsWriteFile ''out/record_1/metadata.json'',
                        HttpDo (requestAttachmentsPath 1)]\<rparr>"
  have mk: "MkdirAll ?E (recordDirOf ?E ''out'' (ID r1))
              (emit (PrintProcessing (ID r1) (Title r1)) empty_world) = (None, ?w1)"
    by (simp add: run_defs sim_defs)
  have sm: "saveMetadata ?E (ID r1) (recordDirOf ?E ''out'' (ID r1)) ?w1 = (None, ?w2)"
    by (simp add: run_defs sim_defs)
  have ga: "GetAttachments ?E (ID r1) ?w2 = (Inr ([fa] @ fb # [fc]), ?w3)"
    by (simp add: run_defs sim_defs)
  have dl: "DownloadAttachment ?E (ID r1) fb (recordDirOf ?E ''out'' (ID r1)) False
              (emit (PrintDownloading (Name fb))
                 (downloadAll ?E (ID r1) [fa] (recordDirOf ?E ''out'' (ID r1)) False ?w3)) =
            (Some (ErrLib ''connection reset''),
             snd (DownloadAttachment ?E (ID r1) fb (recordDirOf ?E ''out'' (ID r1)) False
              (emit (PrintDownloading (Name fb))
                 (downloadAll ?E (ID r1) [fa] (recordDirOf ?E ''out'' (ID r1)) False ?w3))))"
    by (simp add: run_defs sim_defs)
  note T = failed_download_is_only_logged [OF mk sm ga dl]
  have nm: "Name fb = ''b.bin''" "ID r1 = 1" "report (events empty_world) = []"
    by (simp_all add: fb_def r1_def empty_world_def)
  from T obtain w' where run: "processRequest ?E r1 ''out'' False empty_world = (None, w')"
    and lg: "LogDownloadError (Name fb) (ID r1) (ErrLib ''connection reset'') \<in> set (events w')"
    and rp: "report (events w') = report (events empty_world)"
    by blast
  let ?m = "(init 1 empty_world)\<lparr>workers := [Busy r1]\<rparr>"
  have m: "world ?m = empty_world \<and> 0 < length (workers ?m) \<and> workers ?m ! 0 = Busy r1 \<and>
      \<not> mainDone ?m \<and> \<not> panicked ?m"
    by (simp add: init_def)
  from T have "\<exists>m'. step ?E ''out'' False (Process 0) ?m = Some m' \<and>
      workers m' = (workers ?m)[0 := Idle] \<and> errChan m' = errChan ?m"
    using m by blast
  moreover have "(workers ?m)[0 := Idle] = [Idle]" "errChan ?m = []"
    by (simp_all add: init_def)
  ultimately have st: "\<exists>m'. step ?E ''out'' False (Process 0) ?m = Some m' \<and>
      workers m' = [Idle] \<and> errChan m' = []"
    by simp
  from run lg rp nm st show ?thesis by simp
qed

subsection \<open>Discovery\<close>

lemma GetRequests_eq:
  "GetRequests E c w =
     (listing E c,
      w\<lparr>events := events w @
           (if newRequestErr E (if c \<noteq> [] then cursorPath c else requestsPath) = None
            then [HttpDo (if c \<noteq> [] then cursorPath c else requestsPath)] else [])\<rparr>)"
proof -
  let ?ep = "if c \<noteq> [] then cursorPath c else requestsPath"
  have f: "fst (GetRequests E c w) = listing E c"
    unfolding listing_def by (rule GetRequests_fst)
  show ?thesis
  proof (cases "newRequestErr E ?ep")
    case None
    then have "GetRequests E c w = do_request E ?ep (decodeRequestList E) w"
      by (simp add: GetRequests_def newRequest_def)
    with None f show ?thesis
      using do_request_eq [of E ?ep "decodeRequestList E" w]
      by (simp add: emit_def split: if_splits)
  next
    case (Some e)
    with f show ?thesis by (simp add: GetRequests_def newRequest_def split: if_splits)
  qed
qed

lemma prun_mono: "prun n E p w = Some x \<Longrightarrow> n \<le> m \<Longrightarrow> prun m E p w = Some x"
proof (induction n arbitrary: m p w x)
  case 0
  then have "p = PDone" "x = ([], w)" by (auto split: if_splits)
  then show ?case by (cases m) simp_all
next
  case (Suc n)
  from Suc.prems(2) obtain m' where m: "m = Suc m'" "n \<le> m'" by (cases m) auto
  show ?case
  proof (cases "pstep E p w")
    case None
    with Suc.prems(1) m show ?thesis by simp
  next
    case (Some s)
    obtain ev p1 w1 where s: "s = (ev, p1, w1)" by (cases s)
    with Some Suc.prems(1) obtain evs w2 where
      r: "prun n E p1 w1 = Some (evs, w2)" "x = (ev # evs, w2)"
      by (auto split: option.splits)
    from Suc.IH [OF r(1) m(2)] Some s r(2) m(1) show ?thesis by simp
  qed
qed

lemma prun_emit:
  "prun n E (after_page [] href) w = Some (t, w') \<Longrightarrow>
   prun (length rs + n) E (after_page rs href) w = Some (map Emit rs @ t, w')"
proof (induction rs)
  case Nil
  then show ?case by simp
next
  case (Cons r rs)
  have "after_page (r # rs) href = PSend r rs href" by (simp add: after_page_def)
  with Cons show ?case by simp
qed

lemma prun_pages:
  "serves E c pages \<Longrightarrow>
   \<exists>w'. prun (length (expected c pages)) E (PCall c) w = Some (expected c pages, w') \<and>
        dirs w' = dirs w \<and> files w' = files w"
proof (induction pages arbitrary: c w)
  case Nil
  then show ?case by simp
next
  case (Cons p ps)
  from Cons.prems have l: "listing E c = Inr p" by simp
  obtain w1 where g: "GetRequests E c w = (Inr p, w1)" "dirs w1 = dirs w" "files w1 = files w"
    using GetRequests_eq [of E c w] l by simp
  have "\<exists>w'. prun (length (expected (NextHref p) ps)) E (after_page [] (NextHref p)) w1 =
              Some (expected (NextHref p) ps, w') \<and> dirs w' = dirs w1 \<and> files w' = files w1"
  proof (cases ps)
    case Nil
    with Cons.prems show ?thesis by (simp add: after_page_def)
  next
    case (Cons q qs)
    with Cons.prems have "NextHref p \<noteq> []" "serves E (NextHref p) ps" by auto
    with Cons.IH [of "NextHref p" w1] show ?thesis by (simp add: after_page_def)
  qed
  then obtain w' where
    t: "prun (length (expected (NextHref p) ps)) E (after_page [] (NextHref p)) w1 =
          Some (expected (NextHref p) ps, w')" "dirs w' = dirs w1" "files w' = files w1"
    by blast
  from prun_emit [OF t(1), of "Data p"] g t(2,3) show ?case
    by (simp add: add.commute)
qed

lemma calls_expected: "length (calls (expected c pages)) = length pages"
proof (induction pages arbitrary: c)
  case Nil
  then show ?case by simp
next
  case (Cons p ps)
  have e: "calls (map Emit rs @ t) = calls t" for rs t by (induction rs) simp_all
  from Cons show ?case by (simp add: e)
qed

lemma emitted_expected: "emitted (expected c pages) = concat (map Data pages)"
proof (induction pages arbitrary: c)
  case Nil
  then show ?case by simp
next
  case (Cons p ps)
  have e: "emitted (map Emit rs @ t) = rs @ emitted t" for rs t by (induction rs) simp_all
  from Cons show ?case by (simp add: e)
qed

lemma expected_not_Nil: "expected c pages \<noteq> []"
  by (cases pages) simp_all

lemma last_expected: "last (expected c pages) = CloseRequests"
  by (induction pages arbitrary: c) (simp_all add: expected_not_Nil)

lemma serves_three: "serves env_pages [] [page1, page2, page3]"
  by (simp add: listing_def GetRequests_def newRequest_def do_request_def Let_def env_pages_def
      sim_env_def remote_std_def ok_def three_pages_def page1_def page2_def page3_def)

subsection \<open>The moves of a run\<close>

lemma step_live: "step E out ow a m = Some m' \<Longrightarrow> \<not> mainDone m \<and> \<not> panicked m"
  by (auto simp: step_def split: if_splits)

lemma step_Fetch:
  assumes "step E out ow Fetch m = Some m'"
  obtains (failed) c err w1 where "producer m = PCall c" "GetRequests E c (world m) = (Inl err, w1)"
      "m' = m\<lparr>producer := PReport (FailedToGetRequests err), world := w1,
               ptrace := ptrace m @ [Listing c], listingFailures := Suc (listingFailures m)\<rparr>"
  | (page) c resp w1 where "producer m = PCall c" "GetRequests E c (world m) = (Inr resp, w1)"
      "m' = m\<lparr>producer := after_page (Data resp) (NextHref resp), world := w1,
               ptrace := ptrace m @ [Listing c], discovered := discovered m @ Data resp\<rparr>"
  using assms
  by (auto simp: step_def split: if_splits pstate.splits prod.splits sum.splits)

lemma step_Hand:
  assumes "step E out ow (Hand i) m = Some m'"
  obtains r rest href where "producer m = PSend r rest href" "i < length (workers m)"
      "workers m ! i = Idle" "\<not> requestsClosed m"
      "m' = m\<lparr>producer := after_page rest href, workers := (workers m)[i := Busy r],
               ptrace := ptrace m @ [Emit r]\<rparr>"
  using assms
  by (auto simp: step_def split: if_splits pstate.splits)

lemma step_Process:
  assumes "step E out ow (Process i) m = Some m'"
  obtains (failed) r err w1 where "i < length (workers m)" "workers m ! i = Busy r"
      "processRequest E r out ow (world m) = (Some err, w1)"
      "m' = m\<lparr>workers := (workers m)[i := Sending (FailedToProcessRequest (ID r) err)],
               world := w1, processed := processed m @ [r]\<rparr>"
  | (succeeded) r w1 where "i < length (workers m)" "workers m ! i = Busy r"
      "processRequest E r out ow (world m) = (None, w1)"
      "m' = m\<lparr>workers := (workers m)[i := Idle], world := w1, processed := processed m @ [r]\<rparr>"
  using assms
  by (auto simp: step_def split: if_splits wstate.splits prod.splits option.splits)

lemma sendErr_cases:
  assumes "sendErr e m = Some m1"
  obtains (panic) "errClosed m" "m1 = m\<lparr>panicked := True\<rparr>"
  | (buffered) "\<not> errClosed m" "length (errChan m) < length (workers m)"
      "m1 = m\<lparr>errChan := errChan m @ [e]\<rparr>"
  | (handed) "\<not> errClosed m" "workers m = []" "m1 = m\<lparr>world := emit (LogError e) (world m)\<rparr>"
  using assms by (auto simp: sendErr_def split: if_splits)

lemma step_SendError:
  assumes "step E out ow (SendError i) m = Some m'" "\<not> errClosed m"
  obtains e where "i < length (workers m)" "workers m ! i = Sending e"
      "length (errChan m) < length (workers m)"
      "m' = m\<lparr>errChan := errChan m @ [e], workers := (workers m)[i := Idle]\<rparr>"
  using assms
  by (auto simp: step_def sendErr_def split: if_splits wstate.splits option.splits)

lemma step_SendError_closed:
  assumes "step E out ow (SendError i) m = Some m'" "errClosed m"
  shows "i < length (workers m) \<and> (\<exists>e. workers m ! i = Sending e)"
  using assms
  by (auto simp: step_def sendErr_def split: if_splits wstate.splits option.splits)

lemma step_Exit:
  assumes "step E out ow (Exit i) m = Some m'"
  shows "i < length (workers m) \<and> workers m ! i = Idle \<and> requestsClosed m \<and>
         m' = m\<lparr>workers := (workers m)[i := Exited]\<rparr>"
  using assms by (auto simp: step_def split: if_splits)

lemma step_ReportFailure:
  assumes "step E out ow ReportFailure m = Some m'"
  obtains (panic) e where "producer m = PReport e" "errClosed m" "m' = m\<lparr>panicked := True\<rparr>"
  | (buffered) e where "producer m = PReport e" "\<not> errClosed m"
      "length (errChan m) < length (workers m)"
      "m' = m\<lparr>errChan := errChan m @ [e], producer := PClose, ptrace := ptrace m @ [Report e]\<rparr>"
  | (handed) e where "producer m = PReport e" "\<not> errClosed m" "workers m = []"
      "m' = m\<lparr>world := emit (LogError e) (world m), producer := PClose,
               ptrace := ptrace m @ [Report e]\<rparr>"
  using assms
  by (auto simp: step_def sendErr_def split: if_splits pstate.splits option.splits)

lemma step_CloseRequestsChan:
  assumes "step E out ow CloseRequestsChan m = Some m'"
  shows "producer m = PClose \<and>
         m' = m\<lparr>producer := PDone, requestsClosed := True, ptrace := ptrace m @ [CloseRequests]\<rparr>"
  using assms by (auto simp: step_def split: if_splits pstate.splits)

lemma step_CloseErrChan:
  assumes "step E out ow CloseErrChan m = Some m'"
  shows "(\<forall>ws \<in> set (workers m). ws = Exited) \<and> \<not> errClosed m \<and> m' = m\<lparr>errClosed := True\<rparr>"
  using assms by (auto simp: step_def split: if_splits)

lemma step_Drain:
  assumes "step E out ow Drain m = Some m'"
  shows "\<exists>e rest. errChan m = e # rest \<and>
           m' = m\<lparr>errChan := rest, world := emit (LogError e) (world m)\<rparr>"
  using assms by (auto simp: step_def split: if_splits list.splits)

lemma step_Finish:
  assumes "step E out ow Finish m = Some m'"
  shows "errChan m = [] \<and> errClosed m \<and> m' = m\<lparr>mainDone := True\<rparr>"
  using assms by (auto simp: step_def split: if_splits)

subsection \<open>The invariant\<close>

lemma inflight_update:
  "i < length wss \<Longrightarrow> inflight (wss[i := x]) + holding (wss ! i) = inflight wss + holding x"
  unfolding inflight_def
proof (induction wss arbitrary: i)
  case Nil
  then show ?case by simp
next
  case (Cons ws wss)
  show ?case
  proof (cases i)
    case 0
    then show ?thesis by simp
  next
    case (Suc j)
    with Cons.prems have "j < length wss" by simp
    from Cons.IH [OF this] Suc show ?thesis by (simp add: ac_simps)
  qed
qed

lemma inflight_replicate [simp]: "inflight (replicate k Idle) = {#}"
  by (induction k) (simp_all add: inflight_def)

lemma inflight_Exited: "\<forall>ws \<in> set wss. ws = Exited \<Longrightarrow> inflight wss = {#}"
  by (induction wss) (simp_all add: inflight_def)

lemma pending_after_page [simp]: "pending (after_page rs href) = mset rs"
  by (cases rs) (simp_all add: after_page_def)

lemma reporting_after_page [simp]: "reporting (after_page rs href) = 0"
  by (cases rs) (simp_all add: after_page_def)

lemma after_page_cases:
  "(\<exists>r rest. after_page rs href = PSend r rest href) \<or> after_page rs href = PClose \<or>
   (\<exists>c. after_page rs href = PCall c)"
  by (cases rs) (simp_all add: after_page_def)

lemma discovery_failures_append [simp]:
  "discovery_failures (xs @ ys) = discovery_failures xs + discovery_failures ys"
  by (induction xs rule: discovery_failures.induct) simp_all

lemma GetRequests_report:
  "GetRequests E c w = (x, w') \<Longrightarrow> report (events w') = report (events w)"
  using GetRequests_eq [of E c w] by (auto split: if_splits)

lemma in_set_updateD: "x \<in> set (xs[i := y]) \<Longrightarrow> x = y \<or> x \<in> set xs"
  by (auto dest: set_update_subset_insert [THEN subsetD])

lemma invariant_init: "invariant (init k w)"
  by (auto simp: invariant_def init_def)

lemma invariant_Fetch:
  assumes "invariant m" "step E out ow Fetch m = Some m'"
  shows "invariant m'"
  using assms(2)
proof (cases rule: step_Fetch)
  case (failed c err w1)
  from GetRequests_report [OF failed(2)] assms(1) failed(1,3) show ?thesis
    by (auto simp: invariant_def)
next
  case (page c resp w1)
  from GetRequests_report [OF page(2)] assms(1) page(1,3)
    after_page_cases [of "Data resp" "NextHref resp"]
  show ?thesis
    by (auto simp: invariant_def)
qed

lemma invariant_Hand:
  assumes "invariant m" "step E out ow (Hand i) m = Some m'"
  shows "invariant m'"
  using assms(2)
proof (cases rule: step_Hand)
  case (1 r rest href)
  from inflight_update [OF 1(2), of "Busy r"] 1(3)
  have fl: "inflight ((workers m)[i := Busy r]) = inflight (workers m) + {#r#}" by simp
  from 1(2,3) have idle: "Idle \<in> set (workers m)" by (metis nth_mem)
  have closed: "\<not> errClosed m" using assms(1) idle by (auto simp: invariant_def)
  from assms(1) 1 fl closed after_page_cases [of rest href] show ?thesis
    by (auto simp: invariant_def dest!: in_set_updateD)
qed


lemma not_closed_if_working:
  assumes "invariant m" "i < length (workers m)" "workers m ! i \<noteq> Exited"
  shows "\<not> errClosed m"
proof
  assume "errClosed m"
  with assms(1) have "\<forall>ws \<in> set (workers m). ws = Exited" by (simp add: invariant_def)
  with assms(2,3) show False by (metis nth_mem)
qed

lemma invariant_Process:
  assumes "invariant m" "step E out ow (Process i) m = Some m'"
  shows "invariant m'"
  using assms(2)
proof (cases rule: step_Process)
  case (failed r err w1)
  from inflight_update [OF failed(1), of "Sending (FailedToProcessRequest (ID r) err)"] failed(2)
  have fl: "inflight (workers m) =
      inflight ((workers m)[i := Sending (FailedToProcessRequest (ID r) err)]) + {#r#}" by simp
  have closed: "\<not> errClosed m"
    using assms(1) failed(1,2) by (intro not_closed_if_working) auto
  from assms(1) failed(4) fl closed processRequest_report [OF failed(3)] show ?thesis
    by (auto simp: invariant_def dest!: in_set_updateD)
next
  case (succeeded r w1)
  from inflight_update [OF succeeded(1), of Idle] succeeded(2)
  have fl: "inflight (workers m) = inflight ((workers m)[i := Idle]) + {#r#}" by simp
  have closed: "\<not> errClosed m"
    using assms(1) succeeded(1,2) by (intro not_closed_if_working) auto
  from assms(1) succeeded(4) fl closed processRequest_report [OF succeeded(3)] show ?thesis
    by (auto simp: invariant_def dest!: in_set_updateD)
qed

lemma invariant_SendError:
  assumes "invariant m" "step E out ow (SendError i) m = Some m'"
  shows "invariant m'"
proof -
  from step_live [OF assms(2)] have live: "\<not> mainDone m" "\<not> panicked m" by auto
  have closed: "\<not> errClosed m"
  proof
    assume c: "errClosed m"
    from step_SendError_closed [OF assms(2) c] obtain e where
      "i < length (workers m)" "workers m ! i = Sending e" by blast
    with assms(1) have "\<not> errClosed m" by (intro not_closed_if_working) auto
    with c show False by simp
  qed
  from assms(2) closed show ?thesis
  proof (cases rule: step_SendError)
    case (1 e)
    from inflight_update [OF 1(1), of Idle] 1(2)
    have fl: "inflight ((workers m)[i := Idle]) = inflight (workers m)" by simp
    from 1(1,2) have "Sending e \<in> set (workers m)" by (metis nth_mem)
    with assms(1) have "about_record (Sending e)" by (simp add: invariant_def)
    then have "discovery_failures [e] = 0" by (cases e) simp_all
    with assms(1) 1(4) fl closed show ?thesis
      by (auto simp: invariant_def dest!: in_set_updateD)
  qed
qed

lemma invariant_Exit:
  assumes "invariant m" "step E out ow (Exit i) m = Some m'"
  shows "invariant m'"
proof -
  from step_Exit [OF assms(2)] have
    1: "i < length (workers m)" "workers m ! i = Idle" "requestsClosed m"
       "m' = m\<lparr>workers := (workers m)[i := Exited]\<rparr>" by auto
  from inflight_update [OF 1(1), of Exited] 1(2)
  have fl: "inflight ((workers m)[i := Exited]) = inflight (workers m)" by simp
  have closed: "\<not> errClosed m"
    using assms(1) 1(1,2) by (intro not_closed_if_working) auto
  from assms(1) 1(3,4) fl closed show ?thesis
    by (auto simp: invariant_def dest!: in_set_updateD)
qed

lemma invariant_ReportFailure:
  assumes "invariant m" "step E out ow ReportFailure m = Some m'"
  shows "invariant m'"
  using assms(2)
proof (cases rule: step_ReportFailure)
  case (panic e)
  with assms(1) have "\<forall>ws \<in> set (workers m). ws = Exited" "\<not> requestsClosed m"
    by (auto simp: invariant_def)
  with assms(1) have "workers m = []" by (cases "workers m") (auto simp: invariant_def)
  with assms(1) panic show ?thesis by (auto simp: invariant_def)
next
  case (buffered e)
  from assms(1) buffered(1) obtain x where "e = FailedToGetRequests x"
    by (auto simp: invariant_def)
  with assms(1) buffered show ?thesis by (auto simp: invariant_def)
next
  case (handed e)
  from assms(1) handed(1) obtain x where "e = FailedToGetRequests x"
    by (auto simp: invariant_def)
  with assms(1) handed show ?thesis by (auto simp: invariant_def)
qed

lemma invariant_CloseRequestsChan:
  assumes "invariant m" "step E out ow CloseRequestsChan m = Some m'"
  shows "invariant m'"
  using step_CloseRequestsChan [OF assms(2)] assms(1) by (auto simp: invariant_def)

lemma invariant_CloseErrChan:
  assumes "invariant m" "step E out ow CloseErrChan m = Some m'"
  shows "invariant m'"
  using step_CloseErrChan [OF assms(2)] assms(1) step_live [OF assms(2)]
  by (auto simp: invariant_def)

lemma invariant_Drain:
  assumes "invariant m" "step E out ow Drain m = Some m'"
  shows "invariant m'"
proof -
  from step_Drain [OF assms(2)] obtain e rest where
    1: "errChan m = e # rest" "m' = m\<lparr>errChan := rest, world := emit (LogError e) (world m)\<rparr>"
    by blast
  have "discovery_failures (e # rest) = discovery_failures [e] + discovery_failures rest"
    using discovery_failures_append [of "[e]" rest] by simp
  with assms(1) 1 step_live [OF assms(2)] show ?thesis
    by (auto simp: invariant_def)
qed

lemma invariant_Finish:
  assumes "invariant m" "step E out ow Finish m = Some m'"
  shows "invariant m'"
  using step_Finish [OF assms(2)] assms(1) by (auto simp: invariant_def)

lemma invariant_step:
  assumes "invariant m" "step E out ow a m = Some m'"
  shows "invariant m'"
  using assms
  by (cases a)
     (auto intro: invariant_Fetch invariant_Hand invariant_Process invariant_SendError
        invariant_Exit invariant_ReportFailure invariant_CloseRequestsChan
        invariant_CloseErrChan invariant_Drain invariant_Finish)

lemma invariant_exec:
  "invariant m \<Longrightarrow> exec E out ow sched m = Some m' \<Longrightarrow> invariant m'"
proof (induction sched arbitrary: m)
  case Nil
  then show ?case by simp
next
  case (Cons a sched)
  from Cons.prems(2) obtain m1 where
    "step E out ow a m = Some m1" "exec E out ow sched m1 = Some m'"
    by (auto split: option.splits)
  with Cons.IH [of m1] Cons.prems(1) show ?case by (auto dest: invariant_step)
qed

subsection \<open>Every record exactly once\<close>

lemma exec_append:
  "exec E out ow (xs @ ys) m =
     (case exec E out ow xs m of None \<Rightarrow> None | Some m1 \<Rightarrow> exec E out ow ys m1)"
  by (induction xs arbitrary: m) (auto split: option.splits)

lemma length_workers_step:
  "step E out ow a m = Some m' \<Longrightarrow> length (workers m') = length (workers m)"
  by (cases a)
     (auto simp: step_def sendErr_def
        split: if_splits pstate.splits wstate.splits prod.splits sum.splits option.splits
          list.splits)

lemma length_workers_exec:
  "exec E out ow sched m = Some m' \<Longrightarrow> length (workers m') = length (workers m)"
proof (induction sched arbitrary: m)
  case Nil
  then show ?case by simp
next
  case (Cons a sched)
  then show ?case by (auto split: option.splits dest: length_workers_step)
qed

lemma can_Process:
  assumes "i < length (workers m)" "workers m ! i = Busy r" "\<not> mainDone m" "\<not> panicked m"
  shows "\<exists>m'. step E out ow (Process i) m = Some m'"
  using assms
  by (cases "processRequest E r out ow (world m)") (auto simp: step_def split: option.splits)

lemma progress:
  assumes inv: "invariant m" and pool: "workers m \<noteq> []" and live: "\<not> mainDone m"
  shows "\<exists>a m'. step E out ow a m = Some m'"
proof -
  from inv pool have np: "\<not> panicked m" by (auto simp: invariant_def)
  have drain: "\<exists>m'. step E out ow Drain m = Some m'" if "errChan m \<noteq> []"
    using that live np by (cases "errChan m") (auto simp: step_def)
  consider (busy) i r where "i < length (workers m)" "workers m ! i = Busy r"
    | (sending) i e where "i < length (workers m)" "workers m ! i = Sending e"
    | (quiet) "\<forall>ws \<in> set (workers m). ws = Idle \<or> ws = Exited"
  proof -
    have "(\<exists>i r. i < length (workers m) \<and> workers m ! i = Busy r) \<or>
          (\<exists>i e. i < length (workers m) \<and> workers m ! i = Sending e) \<or>
          (\<forall>ws \<in> set (workers m). ws = Idle \<or> ws = Exited)"
    proof (rule ccontr)
      assume n: "\<not> ?thesis"
      then obtain ws where ws: "ws \<in> set (workers m)" "ws \<noteq> Idle" "ws \<noteq> Exited" by blast
      then obtain i where i: "i < length (workers m)" "workers m ! i = ws"
        by (auto simp: in_set_conv_nth)
      show False
      proof (cases ws)
        case Idle
        with ws show ?thesis by simp
      next
        case (Busy r)
        with i n show ?thesis by blast
      next
        case (Sending e)
        with i n show ?thesis by blast
      next
        case Exited
        with ws show ?thesis by simp
      qed
    qed
    with that show ?thesis by blast
  qed
  then show ?thesis
  proof cases
    case (busy i r)
    with live np can_Process [of i m r E out ow] show ?thesis by blast
  next
    case (sending i e)
    with inv have nc: "\<not> errClosed m" by (intro not_closed_if_working) auto
    show ?thesis
    proof (cases "length (errChan m) < length (workers m)")
      case True
      with sending nc live np have "\<exists>m'. step E out ow (SendError i) m = Some m'"
        by (simp add: step_def sendErr_def)
      then show ?thesis by blast
    next
      case False
      with pool have "errChan m \<noteq> []" by auto
      from drain [OF this] show ?thesis by blast
    qed
  next
    case quiet
    show ?thesis
    proof (cases "producer m")
      case (PCall c)
      with live np have "\<exists>m'. step E out ow Fetch m = Some m'"
        by (cases "GetRequests E c (world m)") (auto simp: step_def split: sum.splits)
      then show ?thesis by blast
    next
      case (PSend r rest href)
      with inv have "\<not> requestsClosed m" "Exited \<notin> set (workers m)"
        by (auto simp: invariant_def)
      with quiet pool have "0 < length (workers m)" "workers m ! 0 = Idle"
        by (cases "workers m"; auto)+
      with PSend \<open>\<not> requestsClosed m\<close> live np
      have "\<exists>m'. step E out ow (Hand 0) m = Some m'" by (simp add: step_def)
      then show ?thesis by blast
    next
      case (PReport e)
      with inv have "\<not> requestsClosed m" "Exited \<notin> set (workers m)"
        by (auto simp: invariant_def)
      with inv pool have nc: "\<not> errClosed m"
        by (cases "workers m") (auto simp: invariant_def)
      show ?thesis
      proof (cases "length (errChan m) < length (workers m)")
        case True
        with PReport nc live np have "\<exists>m'. step E out ow ReportFailure m = Some m'"
          by (simp add: step_def sendErr_def)
        then show ?thesis by blast
      next
        case False
        with pool have "errChan m \<noteq> []" by auto
        from drain [OF this] show ?thesis by blast
      qed
    next
      case PClose
      with live np have "\<exists>m'. step E out ow CloseRequestsChan m = Some m'"
        by (simp add: step_def)
      then show ?thesis by blast
    next
      case PDone
      with inv have rc: "requestsClosed m" by (simp add: invariant_def)
      show ?thesis
      proof (cases "Idle \<in> set (workers m)")
        case True
        then obtain i where "i < length (workers m)" "workers m ! i = Idle"
          by (auto simp: in_set_conv_nth)
        with rc live np have "\<exists>m'. step E out ow (Exit i) m = Some m'"
          by (simp add: step_def)
        then show ?thesis by blast
      next
        case False
        with quiet have all: "\<forall>ws \<in> set (workers m). ws = Exited" by auto
        show ?thesis
        proof (cases "errClosed m")
          case False
          with all live np have "\<exists>m'. step E out ow CloseErrChan m = Some m'"
            by (simp add: step_def)
          then show ?thesis by blast
        next
          case True
          show ?thesis
          proof (cases "errChan m = []")
            case True
            with \<open>errClosed m\<close> live np have "\<exists>m'. step E out ow Finish m = Some m'"
              by (simp add: step_def)
            then show ?thesis by blast
          next
            case False
            from drain [OF this] show ?thesis by blast
          qed
        qed
      qed
    qed
  qed
qed

lemma processed_all:
  assumes inv: "invariant m" and pool: "workers m \<noteq> []" and fin: "mainDone m"
  shows "mset (processed m) = mset (discovered m) \<and> \<not> panicked m \<and>
         requestsClosed m \<and> producer m = PDone \<and> errChan m = []"
proof -
  from inv fin have all: "\<forall>ws \<in> set (workers m). ws = Exited" and e: "errChan m = []"
    by (auto simp: invariant_def)
  with pool have "Exited \<in> set (workers m)" by (cases "workers m") auto
  with inv have rc: "requestsClosed m" "producer m = PDone" by (auto simp: invariant_def)
  from inv pool have "\<not> panicked m" by (auto simp: invariant_def)
  moreover from inv rc inflight_Exited [OF all] have "mset (processed m) = mset (discovered m)"
    by (simp add: invariant_def)
  ultimately show ?thesis using rc e by simp
qed

text \<open>
  C1: in every run with \<open>k \<ge> 1\<close> workers, under every schedule, no record is handed to
  \<open>processRequest\<close> more often than the listing delivered it; as long as the main
  goroutine has not returned some goroutine can move; and when the main goroutine has
  returned, the records handed to \<open>processRequest\<close> are exactly the records the listing
  calls delivered, each as often as it was delivered.
\<close>

theorem C1_every_record_once:
  assumes "0 < k" and "exec E out overwrite sched (init k w) = Some m"
  shows "mset (processed m) \<subseteq># mset (discovered m) \<and>
         (\<not> mainDone m \<longrightarrow> (\<exists>a m'. step E out overwrite a m = Some m')) \<and>
         (mainDone m \<longrightarrow> mset (processed m) = mset (discovered m))"
proof -
  from invariant_exec [OF invariant_init assms(2)] have inv: "invariant m" .
  from length_workers_exec [OF assms(2)] assms(1) have pool: "workers m \<noteq> []"
    by (auto simp: init_def)
  from inv have "mset (processed m) \<subseteq># mset (discovered m)"
    by (simp add: invariant_def)
  with progress [OF inv pool] processed_all [OF inv pool] show ?thesis by blast
qed

lemmas pages_defs = env_pages_def env_listing_breaks_def three_pages_def page1_def page2_def
  page3_def r2_def r3_def r4_def r5_def

lemma run_two_workers:
  "map_option (\<lambda>m. (mainDone m, processed m, discovered m, ptrace m))
     (exec env_pages ''out'' False sched_two (init 2 empty_world)) =
   Some (True, [r2, r1, r3, r4, r5], [r1, r2, r3, r4, r5],
         [Listing [], Emit r1, Emit r2, Listing ''/p2'', Emit r3, Listing ''/p3'', Emit r4,
          Emit r5, CloseRequests])"
  by (simp add: sched_two_def machine_defs run_defs sim_defs pages_defs eval_nat_numeral)

theorem C1_every_record_once_witness:
  "\<exists>m. exec env_pages ''out'' False sched_two (init 2 empty_world) = Some m \<and> mainDone m \<and>
        discovered m = [r1, r2, r3, r4, r5] \<and> mset (processed m) = mset [r1, r2, r3, r4, r5]"
proof -
  from run_two_workers obtain m where
    m: "exec env_pages ''out'' False sched_two (init 2 empty_world) = Some m" "mainDone m"
       "discovered m = [r1, r2, r3, r4, r5]"
    by auto
  have "(0::nat) < 2" by simp
  from C1_every_record_once [OF this m(1)] m(2) have "mset (processed m) = mset (discovered m)"
    by blast
  with m show ?thesis by auto
qed

subsection \<open>Discovery in the run\<close>

lemma pstep_world:
  "pstep E p w = Some (ev, p1, w1) \<Longrightarrow> \<exists>w1'. pstep E p w2 = Some (ev, p1, w1')"
proof (cases p)
  case (PCall c)
  assume s: "pstep E p w = Some (ev, p1, w1)"
  from GetRequests_eq [of E c w] GetRequests_eq [of E c w2] s PCall show ?thesis
    by (cases "listing E c") auto
qed auto

lemma pstep_None: "pstep E p w = None \<longleftrightarrow> p = PDone"
  by (cases p) (auto split: prod.splits sum.splits)

lemma prun_world:
  "prun n E p w = Some (t, w') \<Longrightarrow> \<exists>w2'. prun n E p w2 = Some (t, w2')"
proof (induction n arbitrary: p w w2 t w')
  case 0
  then show ?case by (auto split: if_splits)
next
  case (Suc n)
  show ?case
  proof (cases "pstep E p w")
    case None
    then have "p = PDone" by (simp add: pstep_None)
    with Suc.prems show ?thesis by simp
  next
    case (Some s)
    obtain ev p1 w1 where s: "s = (ev, p1, w1)" by (cases s)
    with Some Suc.prems obtain t1 where
      r: "prun n E p1 w1 = Some (t1, w')" "t = ev # t1"
      by (auto split: option.splits)
    from pstep_world [of E p w ev p1 w1 w2] Some s obtain w1' where
      s2: "pstep E p w2 = Some (ev, p1, w1')" by blast
    from Suc.IH [OF r(1), of w1'] obtain w2' where "prun n E p1 w1' = Some (t1, w2')" by blast
    with s2 r(2) show ?thesis by simp
  qed
qed

lemma prun_PDone: "prun n E PDone w = Some (t, w') \<Longrightarrow> t = []"
  by (cases n) (auto split: if_splits)

lemma on_track_init:
  "prun N E (PCall []) w0 = Some (T, w0') \<Longrightarrow> on_track E T (init k w)"
  using prun_world [of N E "PCall []" w0 T w0' "w\<lparr>events := []\<rparr>"]
  by (auto simp: on_track_def init_def)

lemma on_track_same:
  assumes "on_track E T m" "producer m' = producer m" "ptrace m' = ptrace m"
  shows "on_track E T m'"
proof -
  from assms(1) obtain n t w' where
    "prun n E (producer m) (world m) = Some (t, w')" "ptrace m @ t = T"
    by (auto simp: on_track_def)
  with prun_world [of n E "producer m" "world m" t w' "world m'"] assms(2,3) show ?thesis
    by (auto simp: on_track_def)
qed

lemma on_track_move:
  assumes tr: "on_track E T m" and ps: "pstep E (producer m) (world m) = Some (ev, p1, w1)"
      and m': "producer m' = p1" "ptrace m' = ptrace m @ [ev]"
  shows "on_track E T m' \<and> length (ptrace m) < length T"
proof -
  from tr obtain n t w' where
    r: "prun n E (producer m) (world m) = Some (t, w')" "ptrace m @ t = T"
    by (auto simp: on_track_def)
  from ps have "producer m \<noteq> PDone" by auto
  with r(1) obtain n1 where n: "n = Suc n1" by (cases n) auto
  with r(1) ps obtain t1 where
    r1: "prun n1 E p1 w1 = Some (t1, w')" "t = ev # t1"
    by (auto split: option.splits)
  from prun_world [OF r1(1), of "world m'"] obtain w2' where
    "prun n1 E p1 (world m') = Some (t1, w2')" by blast
  with r(2) r1(2) m' show ?thesis by (auto simp: on_track_def)
qed

lemma weight_update:
  "i < length wss \<Longrightarrow>
   sum_list (map weight (wss[i := x])) + weight (wss ! i) = sum_list (map weight wss) + weight x"
proof (induction wss arbitrary: i)
  case Nil
  then show ?case by simp
next
  case (Cons ws wss)
  show ?case
  proof (cases i)
    case 0
    then show ?thesis by simp
  next
    case (Suc j)
    with Cons.prems have "j < length wss" by simp
    from Cons.IH [OF this] Suc show ?thesis by simp
  qed
qed

lemma track_step:
  assumes tr: "on_track E T m" and st: "step E out ow a m = Some m'"
  shows "on_track E T m' \<and> remaining T m' < remaining T m"
proof -
  from step_live [OF st] have live: "\<not> mainDone m" "\<not> panicked m" by auto
  show ?thesis
  proof (cases a)
    case Fetch
    with st have "step E out ow Fetch m = Some m'" by simp
    then show ?thesis
    proof (cases rule: step_Fetch)
      case (failed c err w1)
      with on_track_move [OF tr, of "Listing c" "PReport (FailedToGetRequests err)" w1 m']
      show ?thesis by (auto simp: remaining_def)
    next
      case (page c resp w1)
      with on_track_move [OF tr, of "Listing c" "after_page (Data resp) (NextHref resp)" w1 m']
      show ?thesis by (auto simp: remaining_def)
    qed
  next
    case (Hand i)
    with st have "step E out ow (Hand i) m = Some m'" by simp
    then show ?thesis
    proof (cases rule: step_Hand)
      case (1 r rest href)
      from weight_update [OF 1(2), of "Busy r"] 1(3)
      have "sum_list (map weight ((workers m)[i := Busy r])) = sum_list (map weight (workers m)) + 3"
        by simp
      with 1 on_track_move [OF tr, of "Emit r" "after_page rest href" "world m" m']
      show ?thesis by (auto simp: remaining_def)
    qed
  next
    case (Process i)
    with st have "step E out ow (Process i) m = Some m'" by simp
    then show ?thesis
    proof (cases rule: step_Process)
      case (failed r err w1)
      from weight_update [OF failed(1), of "Sending (FailedToProcessRequest (ID r) err)"] failed(2)
      have "sum_list (map weight ((workers m)[i := Sending (FailedToProcessRequest (ID r) err)])) + 1 =
            sum_list (map weight (workers m))" by simp
      with failed on_track_same [OF tr, of m'] show ?thesis
        by (auto simp: remaining_def)
    next
      case (succeeded r w1)
      from weight_update [OF succeeded(1), of Idle] succeeded(2)
      have "sum_list (map weight ((workers m)[i := Idle])) + 3 = sum_list (map weight (workers m))"
        by simp
      with succeeded on_track_same [OF tr, of m'] show ?thesis
        by (auto simp: remaining_def)
    qed
  next
    case (SendError i)
    with st have s: "step E out ow (SendError i) m = Some m'" by simp
    show ?thesis
    proof (cases "errClosed m")
      case True
      with s live have "m' = m\<lparr>panicked := True\<rparr>"
        by (auto simp: step_def sendErr_def split: if_splits wstate.splits)
      with live on_track_same [OF tr, of m'] show ?thesis by (auto simp: remaining_def)
    next
      case False
      with s show ?thesis
      proof (cases rule: step_SendError)
        case (1 e)
        from weight_update [OF 1(1), of Idle] 1(2)
        have "sum_list (map weight ((workers m)[i := Idle])) + 2 = sum_list (map weight (workers m))"
          by simp
        with 1 on_track_same [OF tr, of m'] show ?thesis by (auto simp: remaining_def)
      qed
    qed
  next
    case (Exit i)
    with st step_Exit [of E out ow i m m'] have
      1: "i < length (workers m)" "workers m ! i = Idle"
         "m' = m\<lparr>workers := (workers m)[i := Exited]\<rparr>" by auto
    from weight_update [OF 1(1), of Exited] 1(2)
    have "sum_list (map weight ((workers m)[i := Exited])) + 1 = sum_list (map weight (workers m))"
      by simp
    with 1 on_track_same [OF tr, of m'] show ?thesis by (auto simp: remaining_def)
  next
    case ReportFailure
    with st have "step E out ow ReportFailure m = Some m'" by simp
    then show ?thesis
    proof (cases rule: step_ReportFailure)
      case (panic e)
      with live on_track_same [OF tr, of m'] show ?thesis by (auto simp: remaining_def)
    next
      case (buffered e)
      with on_track_move [OF tr, of "Report e" PClose "world m" m'] show ?thesis
        by (auto simp: remaining_def)
    next
      case (handed e)
      with on_track_move [OF tr, of "Report e" PClose "world m" m'] show ?thesis
        by (auto simp: remaining_def)
    qed
  next
    case CloseRequestsChan
    with st step_CloseRequestsChan [of E out ow m m']
      on_track_move [OF tr, of CloseRequests PDone "world m" m']
    show ?thesis by (auto simp: remaining_def)
  next
    case CloseErrChan
    with st step_CloseErrChan [of E out ow m m'] on_track_same [OF tr, of m'] show ?thesis
      by (auto simp: remaining_def)
  next
    case Drain
    with st step_Drain [of E out ow m m'] on_track_same [OF tr, of m'] show ?thesis
      by (auto simp: remaining_def)
  next
    case Finish
    with st step_Finish [of E out ow m m'] on_track_same [OF tr, of m'] live show ?thesis
      by (auto simp: remaining_def)
  qed
qed

lemma track_exec:
  "on_track E T m \<Longrightarrow> exec E out ow sched m = Some m' \<Longrightarrow>
   on_track E T m' \<and> length sched + remaining T m' \<le> remaining T m"
proof (induction sched arbitrary: m)
  case Nil
  then show ?case by simp
next
  case (Cons a sched)
  from Cons.prems(2) obtain m1 where
    s: "step E out ow a m = Some m1" "exec E out ow sched m1 = Some m'"
    by (auto split: option.splits)
  from track_step [OF Cons.prems(1) s(1)] have
    1: "on_track E T m1" "remaining T m1 < remaining T m" by auto
  from Cons.IH [OF 1(1) s(2)] 1(2) show ?case by auto
qed

lemma remaining_init: "remaining T (init k w) = 5 * length T + k + 3"
  by (simp add: remaining_def init_def sum_list_replicate)

lemma run_bounded:
  assumes "prun N E (PCall []) w0 = Some (T, w0')"
      and "exec E out ow sched (init k w) = Some m"
  shows "length sched \<le> 5 * length T + k + 3 \<and> (\<exists>t. ptrace m @ t = T) \<and>
         (producer m = PDone \<longrightarrow> ptrace m = T)"
proof -
  from track_exec [OF on_track_init [OF assms(1)] assms(2)] have
    1: "on_track E T m" "length sched + remaining T m \<le> remaining T (init k w)" by auto
  from 1(1) obtain n t w' where
    t: "prun n E (producer m) (world m) = Some (t, w')" "ptrace m @ t = T"
    by (auto simp: on_track_def)
  have "ptrace m = T" if "producer m = PDone"
    using t that prun_PDone [of n E "world m" t w'] by simp
  with 1(2) t(2) show ?thesis by (auto simp: remaining_init)
qed

lemma prun_Nil: "prun n E p w = Some ([], w') \<Longrightarrow> p = PDone"
proof (cases n)
  case 0
  assume "prun n E p w = Some ([], w')"
  with 0 show ?thesis by (auto split: if_splits)
next
  case (Suc k)
  assume r: "prun n E p w = Some ([], w')"
  show ?thesis
  proof (cases "pstep E p w")
    case None
    then show ?thesis by (simp add: pstep_None)
  next
    case (Some s)
    obtain ev p1 w1 where "s = (ev, p1, w1)" by (cases s)
    with Some Suc r show ?thesis by (auto split: option.splits)
  qed
qed

lemma run_completes:
  assumes "on_track E T m" "invariant m" "workers m \<noteq> []"
  shows "\<exists>rest m'. exec E out ow rest m = Some m' \<and> mainDone m'"
  using assms
proof (induction "remaining T m" arbitrary: m rule: less_induct)
  case less
  show ?case
  proof (cases "mainDone m")
    case True
    then have "exec E out ow [] m = Some m \<and> mainDone m" by simp
    then show ?thesis by blast
  next
    case False
    from progress [OF less.prems(2,3) False] obtain a m1 where
      s: "step E out ow a m = Some m1" by blast
    from track_step [OF less.prems(1) s] have
      1: "on_track E T m1" "remaining T m1 < remaining T m" by auto
    from invariant_step [OF less.prems(2) s] have 2: "invariant m1" .
    from length_workers_step [OF s] less.prems(3) have 3: "workers m1 \<noteq> []" by auto
    from less.hyps [OF 1(2) 1(1) 2 3] obtain rest m' where
      "exec E out ow rest m1 = Some m' \<and> mainDone m'" by blast
    with s have "exec E out ow (a # rest) m = Some m' \<and> mainDone m'" by simp
    then show ?thesis by blast
  qed
qed

lemma discovery_reached:
  assumes "serves E [] pages" and "0 < k" and "exec E out ow sched (init k w) = Some m"
  shows "on_track E (expected [] pages) m \<and> invariant m \<and> workers m \<noteq> [] \<and>
         length sched \<le> 5 * length (expected [] pages) + k + 3 \<and>
         (\<exists>t. ptrace m @ t = expected [] pages) \<and>
         (requestsClosed m \<longleftrightarrow> ptrace m = expected [] pages) \<and>
         (mainDone m \<longrightarrow> requestsClosed m)"
proof -
  let ?T = "expected [] pages"
  from prun_pages [OF assms(1), of w] obtain w0 where
    pr: "prun (length ?T) E (PCall []) w = Some (?T, w0)" by blast
  from track_exec [OF on_track_init [OF pr] assms(3)] have
    tr: "on_track E ?T m" and len: "length sched + remaining ?T m \<le> remaining ?T (init k w)"
    by auto
  from invariant_exec [OF invariant_init assms(3)] have inv: "invariant m" .
  from length_workers_exec [OF assms(3)] assms(2) have pool: "workers m \<noteq> []"
    by (auto simp: init_def)
  from tr obtain n t w2 where
    t: "prun n E (producer m) (world m) = Some (t, w2)" "ptrace m @ t = ?T"
    by (auto simp: on_track_def)
  have "ptrace m = ?T" if "requestsClosed m"
  proof -
    from inv that have "producer m = PDone" by (simp add: invariant_def)
    with t(1) prun_PDone [of n E "world m" t w2] have "t = []" by simp
    with t(2) show ?thesis by simp
  qed
  moreover have "requestsClosed m" if "ptrace m = ?T"
  proof -
    from t(2) that have "t = []" by simp
    with t(1) prun_Nil [of n E "producer m" "world m" w2] have "producer m = PDone" by simp
    with inv show ?thesis by (simp add: invariant_def)
  qed
  moreover from processed_all [OF inv pool] have "requestsClosed m" if "mainDone m"
    using that by simp
  moreover from len have "length sched \<le> 5 * length ?T + k + 3"
    by (simp add: remaining_init)
  ultimately show ?thesis using tr inv pool t(2) by blast
qed

text \<open>
  C6: let the listing serve the pages \<open>pages\<close>, the last without a next cursor, and take
  any run with \<open>k \<ge> 1\<close> workers under any schedule, where a record is emitted when a
  worker receives it. At every moment what the discovery goroutine has done is a
  beginning of: per page, in order, one listing call and then the page's records in
  order, and at the end the close of \<open>requestsChan\<close>; the channel is closed exactly when
  all of this has been done. No schedule is longer than a bound given by the pages and
  \<open>k\<close>, and every run can be continued until the main goroutine returns, with all of it
  done. When the main goroutine has returned, there has been one listing call per page,
  the records emitted are the concatenation of the pages' records, and the producer's
  last action was the close.
\<close>

theorem C6_discovery_in_every_run:
  assumes "serves E [] pages" and "0 < k"
      and "exec E out overwrite sched (init k w) = Some m"
  shows "(\<exists>t. ptrace m @ t = expected [] pages) \<and>
         (requestsClosed m \<longleftrightarrow> ptrace m = expected [] pages) \<and>
         length sched \<le> 5 * length (expected [] pages) + k + 3 \<and>
         (\<exists>rest m'. exec E out overwrite rest m = Some m' \<and> mainDone m' \<and>
            ptrace m' = expected [] pages) \<and>
         (mainDone m \<longrightarrow>
            ptrace m = expected [] pages \<and>
            length (calls (ptrace m)) = length pages \<and>
            emitted (ptrace m) = concat (map Data pages) \<and>
            last (ptrace m) = CloseRequests)"
proof -
  note here = discovery_reached [OF assms]
  from here run_completes [of E "expected [] pages" m out overwrite] obtain rest m' where
    c: "exec E out overwrite rest m = Some m'" "mainDone m'" by blast
  from assms(3) c(1) have "exec E out overwrite (sched @ rest) (init k w) = Some m'"
    by (simp add: exec_append)
  from discovery_reached [OF assms(1,2) this] c(2) have "ptrace m' = expected [] pages"
    by blast
  with c have 1: "\<exists>rest m'. exec E out overwrite rest m = Some m' \<and> mainDone m' \<and>
      ptrace m' = expected [] pages" by blast
  have 2: "ptrace m = expected [] pages \<and> length (calls (ptrace m)) = length pages \<and>
      emitted (ptrace m) = concat (map Data pages) \<and> last (ptrace m) = CloseRequests"
    if "mainDone m"
  proof -
    from here that have "ptrace m = expected [] pages" by blast
    then show ?thesis by (simp add: calls_expected emitted_expected last_expected)
  qed
  from here 1 2 show ?thesis by blast
qed

theorem C6_discovery_in_every_run_witness:
  "\<exists>m. exec env_pages ''out'' False sched_two (init 2 empty_world) = Some m \<and> mainDone m \<and>
        ptrace m = [Listing [], Emit r1, Emit r2, Listing ''/p2'', Emit r3,
                    Listing ''/p3'', Emit r4, Emit r5, CloseRequests] \<and>
        length (calls (ptrace m)) = 3 \<and>
        emitted (ptrace m) = [r1, r2, r3, r4, r5] \<and>
        last (ptrace m) = CloseRequests \<and>
        length sched_two \<le> 50"
proof -
  from run_two_workers obtain m where
    m: "exec env_pages ''out'' False sched_two (init 2 empty_world) = Some m" "mainDone m"
    by auto
  have k: "(0::nat) < 2" by simp
  have e: "expected [] [page1, page2, page3] =
      [Listing [], Emit r1, Emit r2, Listing ''/p2'', Emit r3,
       Listing ''/p3'', Emit r4, Emit r5, CloseRequests]"
    by (simp add: page1_def page2_def page3_def)
  have d: "concat (map Data [page1, page2, page3]) = [r1, r2, r3, r4, r5]"
    by (simp add: page1_def page2_def page3_def)
  from C6_discovery_in_every_run [OF serves_three k m(1)] m(2) have
    "ptrace m = expected [] [page1, page2, page3]"
    "length (calls (ptrace m)) = length [page1, page2, page3]"
    "emitted (ptrace m) = concat (map Data [page1, page2, page3])"
    "last (ptrace m) = CloseRequests"
    "length sched_two \<le> 5 * length (expected [] [page1, page2, page3]) + 2 + 3"
    by blast+
  with m show ?thesis unfolding e d by simp
qed

subsection \<open>A listing call that fails\<close>

lemma failure_trace_step:
  assumes ft: "failure_trace m" and inv: "invariant m" and st: "step E out ow a m = Some m'"
  shows "failure_trace m'"
proof (cases a)
  case Fetch
  with st have "step E out ow Fetch m = Some m'" by simp
  then show ?thesis
  proof (cases rule: step_Fetch)
    case (failed c err w1)
    then show ?thesis by (simp add: failure_trace_def)
  next
    case (page c resp w1)
    with inv have "listingFailures m = 0" by (auto simp: invariant_def)
    with page after_page_cases [of "Data resp" "NextHref resp"] show ?thesis
      by (auto simp: failure_trace_def)
  qed
next
  case (Hand i)
  with st have "step E out ow (Hand i) m = Some m'" by simp
  then show ?thesis
  proof (cases rule: step_Hand)
    case (1 r rest href)
    with inv have "listingFailures m = 0" by (auto simp: invariant_def)
    with 1 after_page_cases [of rest href] show ?thesis
      by (auto simp: failure_trace_def)
  qed
next
  case (Process i)
  with st have "step E out ow (Process i) m = Some m'" by simp
  then show ?thesis
    by (cases rule: step_Process) (use ft in \<open>auto simp: failure_trace_def\<close>)
next
  case (SendError i)
  with st have s: "step E out ow (SendError i) m = Some m'" by simp
  then have "producer m' = producer m \<and> ptrace m' = ptrace m \<and> listingFailures m' = listingFailures m"
    by (auto simp: step_def sendErr_def split: if_splits wstate.splits)
  with ft show ?thesis by (simp add: failure_trace_def)
next
  case (Exit i)
  with st ft step_Exit [of E out ow i m m'] show ?thesis by (auto simp: failure_trace_def)
next
  case ReportFailure
  with st have "step E out ow ReportFailure m = Some m'" by simp
  then show ?thesis
  proof (cases rule: step_ReportFailure)
    case (panic e)
    with ft show ?thesis by (auto simp: failure_trace_def)
  next
    case (buffered e)
    with inv obtain x where "e = FailedToGetRequests x" by (auto simp: invariant_def)
    with ft buffered show ?thesis by (auto simp: failure_trace_def)
  next
    case (handed e)
    with inv obtain x where "e = FailedToGetRequests x" by (auto simp: invariant_def)
    with ft handed show ?thesis by (auto simp: failure_trace_def)
  qed
next
  case CloseRequestsChan
  with st ft step_CloseRequestsChan [of E out ow m m'] show ?thesis
    by (auto simp: failure_trace_def)
next
  case CloseErrChan
  with st ft step_CloseErrChan [of E out ow m m'] show ?thesis
    by (auto simp: failure_trace_def)
next
  case Drain
  with st ft step_Drain [of E out ow m m'] show ?thesis by (auto simp: failure_trace_def)
next
  case Finish
  with st ft step_Finish [of E out ow m m'] show ?thesis by (auto simp: failure_trace_def)
qed

lemma failure_trace_exec:
  "failure_trace m \<Longrightarrow> invariant m \<Longrightarrow> exec E out ow sched m = Some m' \<Longrightarrow> failure_trace m'"
proof (induction sched arbitrary: m)
  case Nil
  then show ?case by simp
next
  case (Cons a sched)
  from Cons.prems(3) obtain m1 where
    s: "step E out ow a m = Some m1" "exec E out ow sched m1 = Some m'"
    by (auto split: option.splits)
  from failure_trace_step [OF Cons.prems(1,2) s(1)] invariant_step [OF Cons.prems(2) s(1)] s(2)
  show ?case by (rule Cons.IH)
qed

text \<open>
  C7: in every complete run with \<open>k \<ge> 1\<close> workers in which a listing call failed, the
  producer's last actions are that call, the report of its failure and the close of
  \<open>requestsChan\<close>; every record the listing delivered before has been processed; and the
  final report holds exactly one discovery failure.
\<close>

theorem C7_listing_failure:
  assumes "0 < k" and "exec E out overwrite sched (init k w) = Some m"
      and "mainDone m" and "0 < listingFailures m"
  shows "requestsClosed m \<and>
         (\<exists>pre c e. ptrace m = pre @ [Listing c, Report (FailedToGetRequests e), CloseRequests]) \<and>
         mset (processed m) = mset (discovered m) \<and>
         discovery_failures (report (events (world m))) = 1"
proof -
  from invariant_exec [OF invariant_init assms(2)] have inv: "invariant m" .
  have "failure_trace (init k w)" by (simp add: failure_trace_def init_def)
  from failure_trace_exec [OF this invariant_init assms(2)] have ft: "failure_trace m" .
  from length_workers_exec [OF assms(2)] assms(1) have pool: "workers m \<noteq> []"
    by (auto simp: init_def)
  from processed_all [OF inv pool assms(3)] have
    1: "mset (processed m) = mset (discovered m)" "requestsClosed m" "producer m = PDone"
       "errChan m = []" by auto
  from ft 1(3) assms(4) have
    2: "\<exists>pre c e. ptrace m = pre @ [Listing c, Report (FailedToGetRequests e), CloseRequests]"
    by (simp add: failure_trace_def)
  from inv 1(3,4) assms(4) have "discovery_failures (report (events (world m))) = 1"
    by (auto simp: invariant_def)
  with 1 2 show ?thesis by blast
qed

lemma run_listing_breaks:
  "map_option (\<lambda>m. (mainDone m, listingFailures m, discovered m))
     (exec env_listing_breaks ''out'' False sched_breaks (init 1 empty_world)) =
   Some (True, 1, [r1, r2])"
  by (simp add: sched_breaks_def machine_defs run_defs sim_defs pages_defs)

theorem C7_listing_failure_witness:
  "\<exists>m. exec env_listing_breaks ''out'' False sched_breaks (init 1 empty_world) = Some m \<and>
        mainDone m \<and> requestsClosed m \<and> mset (processed m) = mset [r1, r2] \<and>
        discovery_failures (report (events (world m))) = 1"
proof -
  from run_listing_breaks obtain m where
    m: "exec env_listing_breaks ''out'' False sched_breaks (init 1 empty_world) = Some m"
       "mainDone m" "listingFailures m = 1" "discovered m = [r1, r2]"
    by auto
  have "(0::nat) < 1" "0 < listingFailures m" using m(3) by simp_all
  from C7_listing_failure [OF this(1) m(1,2) this(2)] m show ?thesis by auto
qed

subsection \<open>The worker count is not validated\<close>

lemma emitted_append [simp]: "emitted (xs @ ys) = emitted xs @ emitted ys"
  by (induction xs rule: emitted.induct) simp_all

lemma no_workers_step:
  assumes "workers m = []" "processed m = []" "emitted (ptrace m) = []"
      and "step E out ow a m = Some m'"
  shows "workers m' = [] \<and> processed m' = [] \<and> emitted (ptrace m') = []"
  using assms
  by (cases a)
     (auto simp: step_def sendErr_def
        split: if_splits pstate.splits prod.splits sum.splits option.splits list.splits)

lemma no_workers_exec:
  "workers m = [] \<Longrightarrow> processed m = [] \<Longrightarrow> emitted (ptrace m) = [] \<Longrightarrow>
   exec E out ow sched m = Some m' \<Longrightarrow> processed m' = [] \<and> emitted (ptrace m') = []"
proof (induction sched arbitrary: m)
  case Nil
  then show ?case by simp
next
  case (Cons a sched)
  from Cons.prems(4) obtain m1 where
    s: "step E out ow a m = Some m1" "exec E out ow sched m1 = Some m'"
    by (auto split: option.splits)
  from no_workers_step [OF Cons.prems(1,2,3) s(1)] s(2) show ?case
    by (intro Cons.IH) auto
qed

lemma run_no_workers:
  "map_option (\<lambda>m. (mainDone m, ptrace m, discovered m, processed m, report (events (world m))))
     (exec (env_std []) ''out'' False [Fetch, CloseErrChan, Finish] (init 0 empty_world)) =
   Some (True, [Listing []], [r1], [], [])"
  by (simp add: machine_defs listing_std empty_world_def)

text \<open>
  C2, as stated, fails: with \<open>-workers 0\<close> (and \<open>-api-url\<close> and \<open>-token\<close> given) \<open>main\<close>
  starts the run; the listing call is made and delivers a record, no record is processed,
  and the main goroutine returns with an empty report.
\<close>

theorem C2_zero_workers_not_rejected:
  "flag_workers cfg_zero \<le> 0 \<and>
   main cfg_zero empty_world = Run (init 0 empty_world) \<and>
   map_option (\<lambda>m. (mainDone m, ptrace m, discovered m, processed m, report (events (world m))))
     (exec (env_std []) ''out'' False [Fetch, CloseErrChan, Finish] (init 0 empty_world)) =
   Some (True, [Listing []], [r1], [], [])"
  by (intro conjI, simp add: cfg_zero_def, simp add: main_def maxChanCap_def cfg_zero_def,
      rule run_no_workers)

text \<open>
  C2, amended: the only configuration error \<open>main\<close> detects before any concurrent work is
  an empty \<open>-api-url\<close> or \<open>-token\<close>. With both given, a negative worker count stops the
  program before any goroutine starts, by the panic of \<open>make(chan error, n)\<close>; a worker
  count of zero is accepted: the run starts with no workers, and in it no record is ever
  sent to a worker or processed.
\<close>

theorem C2_worker_count_not_validated:
  "(flag_api_url cfg = [] \<or> flag_token cfg = [] \<longrightarrow> main cfg w = ExitUsage) \<and>
   (flag_api_url cfg \<noteq> [] \<and> flag_token cfg \<noteq> [] \<and> flag_workers cfg < 0 \<longrightarrow>
      main cfg w = PanicMakeChan) \<and>
   (flag_api_url cfg \<noteq> [] \<and> flag_token cfg \<noteq> [] \<and> flag_workers cfg = 0 \<longrightarrow>
      main cfg w = Run (init 0 w) \<and>
      (\<forall>E sched m. exec E (flag_output_dir cfg) (flag_overwrite cfg) sched (init 0 w) = Some m \<longrightarrow>
         processed m = [] \<and> emitted (ptrace m) = []))"
proof -
  have "processed m = [] \<and> emitted (ptrace m) = []"
    if "exec E out ow sched (init 0 w) = Some m" for E out ow sched m
    using that by (intro no_workers_exec [of "init 0 w" E out ow sched m]) (simp_all add: init_def)
  then show ?thesis by (auto simp: main_def maxChanCap_def)
qed

theorem C2_worker_count_not_validated_witness:
  "main cfg_no_token empty_world = ExitUsage \<and>
   main cfg_negative empty_world = PanicMakeChan \<and>
   main cfg_zero empty_world = Run (init 0 empty_world) \<and>
   (\<exists>m. exec (env_std []) ''out'' False [Fetch, CloseErrChan, Finish] (init 0 empty_world) = Some m \<and>
        mainDone m \<and> discovered m = [r1] \<and> processed m = [])"
proof -
  have a: "flag_token cfg_no_token = []"
    and b: "flag_api_url cfg_negative \<noteq> [] \<and> flag_token cfg_negative \<noteq> [] \<and>
            flag_workers cfg_negative < 0"
    and c: "flag_api_url cfg_zero \<noteq> [] \<and> flag_token cfg_zero \<noteq> [] \<and> flag_workers cfg_zero = 0"
    and d: "flag_output_dir cfg_zero = ''out''" "flag_overwrite cfg_zero = False"
    by (simp_all add: cfg_zero_def cfg_negative_def cfg_no_token_def)
  from run_no_workers obtain m where
    m: "exec (env_std []) ''out'' False [Fetch, CloseErrChan, Finish] (init 0 empty_world) = Some m"
       "mainDone m" "discovered m = [r1]"
    by auto
  from C2_worker_count_not_validated [of cfg_no_token empty_world] a
  have 1: "main cfg_no_token empty_world = ExitUsage" by blast
  from C2_worker_count_not_validated [of cfg_negative empty_world] b
  have 2: "main cfg_negative empty_world = PanicMakeChan" by blast
  from C2_worker_count_not_validated [of cfg_zero empty_world] c
  have 3: "main cfg_zero empty_world = Run (init 0 empty_world)"
    and 4: "\<forall>E sched m. exec E (flag_output_dir cfg_zero) (flag_overwrite cfg_zero) sched
              (init 0 empty_world) = Some m \<longrightarrow> processed m = [] \<and> emitted (ptrace m) = []"
    by blast+
  have "exec (env_std []) (flag_output_dir cfg_zero) (flag_overwrite cfg_zero)
          [Fetch, CloseErrChan, Finish] (init 0 empty_world) = Some m"
    unfolding d by (rule m(1))
  with 4 have "processed m = []" by blast
  with 1 2 3 m show ?thesis by blast
qed

subsection \<open>A second run that skips existing files\<close>

lemma DownloadAttachment_no_log:
  assumes "DownloadAttachment E i a d ow w = (r, w')"
      and "LogDownloadError n j e \<in> set (events w')"
  shows "LogDownloadError n j e \<in> set (events w)"
  by (rule DownloadAttachment_cases [where E = E and i = i and a = a and d = d and ow = ow and w = w])
     (use assms in auto)

lemma exists_at_mono:
  assumes "exists_at w p" "dirs w \<subseteq> dirs w'" "\<And>b. files w p = Some b \<Longrightarrow> \<exists>b'. files w' p = Some b'"
  shows "exists_at w' p"
  using assms by (auto simp: exists_at_def)

lemma DownloadAttachment_exists:
  assumes "DownloadAttachment E i a d ow w = (r, w')" "exists_at w p"
  shows "exists_at w' p"
  using assms(2)
proof (rule exists_at_mono)
  show "dirs w \<subseteq> dirs w'" using DownloadAttachment_dirs [OF assms(1)] by simp
  show "\<exists>b'. files w' p = Some b'" if "files w p = Some b" for b
    using assms(1) that by (rule DownloadAttachment_dom)
qed

lemma downloadAll_exists: "exists_at w p \<Longrightarrow> exists_at (downloadAll E i xs d ow w) p"
proof (rule exists_at_mono)
  show "dirs w \<subseteq> dirs (downloadAll E i xs d ow w)" by (simp add: downloadAll_dirs)
  show "\<exists>b'. files (downloadAll E i xs d ow w) p = Some b'" if "files w p = Some b" for b
    using that by (rule downloadAll_dom)
qed

lemma downloadAll_errors:
  "LogDownloadError n j e \<in> set (events (downloadAll E i xs d False w)) \<Longrightarrow>
   LogDownloadError n j e \<in> set (events w) \<or> j = i \<and> \<not> exists_at w (join E d n)"
proof (induction xs arbitrary: w)
  case Nil
  then show ?case by simp
next
  case (Cons a xs)
  let ?w0 = "emit (PrintDownloading (Name a)) w"
  obtain r w1 where dl: "DownloadAttachment E i a d False ?w0 = (r, w1)"
    by (cases "DownloadAttachment E i a d False ?w0")
  have before: "\<not> exists_at w p" if "\<not> exists_at w1 p" for p
    using DownloadAttachment_exists [OF dl, of p] that by auto
  have old: "LogDownloadError n j e \<in> set (events w)" if "LogDownloadError n j e \<in> set (events w1)"
    using DownloadAttachment_no_log [OF dl that] by simp
  show ?case
  proof (cases r)
    case None
    with dl Cons.prems have "LogDownloadError n j e \<in> set (events (downloadAll E i xs d False w1))"
      by simp
    from Cons.IH [OF this] before old show ?thesis by blast
  next
    case (Some e')
    let ?w2 = "emit (LogDownloadError (Name a) i e') w1"
    from Some dl Cons.prems
    have "LogDownloadError n j e \<in> set (events (downloadAll E i xs d False ?w2))" by simp
    from Cons.IH [OF this]
    consider "LogDownloadError n j e \<in> set (events w1)"
      | "n = Name a" "j = i" "e = e'"
      | "j = i" "\<not> exists_at w1 (join E d n)"
      by auto
    then show ?thesis
    proof cases
      case 1
      with old show ?thesis by blast
    next
      case 2
      from dl Some have "\<not> exists_at ?w0 (join E d (Name a))"
        by (auto dest: DownloadAttachment_error_absent)
      with 2 show ?thesis by simp
    next
      case 3
      with before show ?thesis by blast
    qed
  qed
qed

lemma stage_not_log: "\<forall>ev \<in> set evs. stage ev \<noteq> 4 \<Longrightarrow> LogDownloadError n j e \<notin> set evs"
  by auto

lemma hard_steps_effect:
  assumes "MkdirAll E d (emit ev0 w) = (None, w1)" "saveMetadata E i d w1 = (x2, w2)"
      and "GetAttachments E i w2 = (x3, w3)"
  shows "dirs w \<subseteq> dirs w3 \<and> (\<forall>q b. files w q = Some b \<longrightarrow> (\<exists>b'. files w3 q = Some b')) \<and>
         (\<forall>q. q \<noteq> join E d ''metadata.json'' \<longrightarrow> files w3 q = files w q) \<and>
         (\<forall>n j e. LogDownloadError n j e \<in> set (events w3) \<longrightarrow>
                   ev0 = LogDownloadError n j e \<or> LogDownloadError n j e \<in> set (events w))"
proof -
  from MkdirAll_ok [OF assms(1)] MkdirAll_files [OF assms(1)] MkdirAll_events [OF assms(1)]
  have 1: "dirs w1 = insert d (dirs w)" "files w1 = files w"
    "events w1 = events w @ [ev0, OsMkdirAll d]" by auto
  from saveMetadata_dirs [OF assms(2)] have 2: "dirs w2 = dirs w1" .
  from saveMetadata_events [OF assms(2)] obtain n2 where
    n2: "events w2 = events w1 @ n2" "\<forall>ev \<in> set n2. stage ev = 2" by blast
  from GetAttachments_events [OF assms(3)] obtain n3 where
    3: "dirs w3 = dirs w2" "files w3 = files w2" "events w3 = events w2 @ n3"
       "\<forall>ev \<in> set n3. stage ev = 3" by blast
  have a: "dirs w \<subseteq> dirs w3" using 1 2 3 by auto
  have b: "\<exists>b'. files w3 q = Some b'" if "files w q = Some b" for q b
    using saveMetadata_dom [OF assms(2), of q b] that 1 3 by simp
  have c: "files w3 q = files w q" if "q \<noteq> join E d ''metadata.json''" for q
    using saveMetadata_frame [OF assms(2) that] 1 3 by simp
  have d: "ev0 = LogDownloadError n j e \<or> LogDownloadError n j e \<in> set (events w)"
    if "LogDownloadError n j e \<in> set (events w3)" for n j e
  proof -
    from n2(2) have "LogDownloadError n j e \<notin> set n2" by (intro stage_not_log) auto
    moreover from 3(4) have "LogDownloadError n j e \<notin> set n3" by (intro stage_not_log) auto
    ultimately show ?thesis using that 1 n2 3 by auto
  qed
  from a b c d show ?thesis by blast
qed

lemma processRequest_second_run:
  assumes "processRequest E r out False w = (res, w')"
  shows "(\<forall>p b. files w p = Some b \<and> p \<noteq> join E (recordDirOf E out (ID r)) ''metadata.json'' \<longrightarrow>
            files w' p = Some b) \<and>
         (\<forall>p. exists_at w p \<longrightarrow> exists_at w' p) \<and>
         (\<forall>n j e. LogDownloadError n j e \<in> set (events w') \<longrightarrow>
            LogDownloadError n j e \<in> set (events w) \<or>
            \<not> exists_at w (join E (recordDirOf E out j) n))"
  using assms
proof (cases rule: processRequest_cases)
  case (mkdir e)
  from MkdirAll_fail [OF mkdir(1)] MkdirAll_files [OF mkdir(1)] MkdirAll_events [OF mkdir(1)]
  show ?thesis by (auto simp: exists_at_def)
next
  case (meta w1 e)
  obtain x3 w3 where g: "GetAttachments E (ID r) w' = (x3, w3)"
    by (cases "GetAttachments E (ID r) w'")
  from GetAttachments_events [OF g] obtain n3 where
    3: "dirs w3 = dirs w'" "files w3 = files w'" "events w3 = events w' @ n3" by blast
  from hard_steps_effect [OF meta(1,2) g] 3 show ?thesis
    by (fastforce simp: exists_at_def)
next
  case (atts w1 w2 e)
  from hard_steps_effect [OF atts(1,2,3)] show ?thesis
    by (fastforce simp: exists_at_def)
next
  case (loop w1 w2 attachments w3)
  let ?d = "recordDirOf E out (ID r)"
  note h = hard_steps_effect [OF loop(1,2,3)]
  have a: "files w' p = Some b" if "files w p = Some b" "p \<noteq> join E ?d ''metadata.json''" for p b
  proof -
    from h that have "files w3 p = Some b" by simp
    then show ?thesis unfolding loop(5) by (rule downloadAll_keep)
  qed
  have e3: "exists_at w3 p" if "exists_at w p" for p
    using that h by (fastforce simp: exists_at_def)
  have b: "exists_at w' p" if "exists_at w p" for p
    unfolding loop(5) using e3 [OF that] by (rule downloadAll_exists)
  have c: "LogDownloadError n j e \<in> set (events w) \<or> \<not> exists_at w (join E (recordDirOf E out j) n)"
    if "LogDownloadError n j e \<in> set (events w')" for n j e
  proof -
    from that have "LogDownloadError n j e \<in> set (events w3) \<or>
        j = ID r \<and> \<not> exists_at w3 (join E ?d n)"
      unfolding loop(5) by (rule downloadAll_errors)
    then show ?thesis
    proof
      assume "LogDownloadError n j e \<in> set (events w3)"
      with h show ?thesis by auto
    next
      assume "j = ID r \<and> \<not> exists_at w3 (join E ?d n)"
      with e3 show ?thesis by blast
    qed
  qed
  from a b c show ?thesis by blast
qed

lemma processRequest_metadata:
  assumes "processRequest E r out False w = (res, w')"
      and "\<forall>e. res \<noteq> Some (ErrCreatingDirectory (ID r) e)"
      and "\<forall>e. res \<noteq> Some (ErrSavingMetadata (ID r) e)"
  shows "\<exists>req data. fst (GetRequestDetails E (ID r) w) = Inr req \<and> marshalIndent E req = Inr data \<and>
           files w' (join E (recordDirOf E out (ID r)) ''metadata.json'') = Some data"
  using assms(1)
proof (cases rule: processRequest_cases)
  case (mkdir e)
  with assms(2) show ?thesis by simp
next
  case (meta w1 e)
  with assms(3) show ?thesis by simp
next
  case (atts w1 w2 e)
  from saveMetadata_ok [OF atts(2)] obtain req data where
    "fst (GetRequestDetails E (ID r) w1) = Inr req" "marshalIndent E req = Inr data"
    "files w2 = (files w1)(join E (recordDirOf E out (ID r)) ''metadata.json'' \<mapsto> data)" by blast
  moreover from GetAttachments_events [OF atts(3)] have "files w' = files w2" by simp
  ultimately show ?thesis by (auto simp: GetRequestDetails_fst [of E "ID r" w w1])
next
  case (loop w1 w2 attachments w3)
  from saveMetadata_ok [OF loop(2)] obtain req data where
    1: "fst (GetRequestDetails E (ID r) w1) = Inr req" "marshalIndent E req = Inr data"
    "files w2 = (files w1)(join E (recordDirOf E out (ID r)) ''metadata.json'' \<mapsto> data)" by blast
  moreover from GetAttachments_events [OF loop(3)] have "files w3 = files w2" by simp
  ultimately have "files w3 (join E (recordDirOf E out (ID r)) ''metadata.json'') = Some data"
    by simp
  then have "files w' (join E (recordDirOf E out (ID r)) ''metadata.json'') = Some data"
    unfolding loop(5) by (rule downloadAll_keep)
  with 1 show ?thesis by (auto simp: GetRequestDetails_fst [of E "ID r" w w1])
qed


text \<open>What a move of the run can do to the world.\<close>

lemma step_world:
  assumes "step E out ow a m = Some m'"
  shows "world m' = world m \<or>
         (\<exists>c x. GetRequests E c (world m) = (x, world m')) \<or>
         (\<exists>r res. processRequest E r out ow (world m) = (res, world m')) \<or>
         (\<exists>e. world m' = emit (LogError e) (world m))"
proof (cases a)
  case Fetch
  with assms have "step E out ow Fetch m = Some m'" by simp
  then show ?thesis by (cases rule: step_Fetch) auto
next
  case (Hand i)
  with assms have "step E out ow (Hand i) m = Some m'" by simp
  then show ?thesis by (cases rule: step_Hand) auto
next
  case (Process i)
  with assms have "step E out ow (Process i) m = Some m'" by simp
  then show ?thesis by (cases rule: step_Process) auto
next
  case (SendError i)
  with assms have "world m' = world m"
    by (auto simp: step_def sendErr_def split: if_splits wstate.splits)
  then show ?thesis by simp
next
  case (Exit i)
  with assms step_Exit [of E out ow i m m'] show ?thesis by auto
next
  case ReportFailure
  with assms have "step E out ow ReportFailure m = Some m'" by simp
  then show ?thesis by (cases rule: step_ReportFailure) auto
next
  case CloseRequestsChan
  with assms step_CloseRequestsChan [of E out ow m m'] show ?thesis by auto
next
  case CloseErrChan
  with assms step_CloseErrChan [of E out ow m m'] show ?thesis by auto
next
  case Drain
  with assms step_Drain [of E out ow m m'] show ?thesis by auto
next
  case Finish
  with assms step_Finish [of E out ow m m'] show ?thesis by auto
qed

lemma second_run_step:
  assumes st: "step E out False a m = Some m'"
      and keep: "\<forall>p b. files w1 p = Some b \<and> (\<forall>i. p \<noteq> join E (recordDirOf E out i) ''metadata.json'') \<longrightarrow>
                   files (world m) p = Some b"
      and ex: "\<forall>p. exists_at w1 p \<longrightarrow> exists_at (world m) p"
      and lg: "\<forall>n j e. LogDownloadError n j e \<in> set (events (world m)) \<longrightarrow>
                   \<not> exists_at w1 (join E (recordDirOf E out j) n)"
  shows "(\<forall>p b. files w1 p = Some b \<and> (\<forall>i. p \<noteq> join E (recordDirOf E out i) ''metadata.json'') \<longrightarrow>
            files (world m') p = Some b) \<and>
         (\<forall>p. exists_at w1 p \<longrightarrow> exists_at (world m') p) \<and>
         (\<forall>n j e. LogDownloadError n j e \<in> set (events (world m')) \<longrightarrow>
            \<not> exists_at w1 (join E (recordDirOf E out j) n))"
proof -
  from step_world [OF st]
  consider (same) "world m' = world m"
    | (listing) c x where "GetRequests E c (world m) = (x, world m')"
    | (worked) r res where "processRequest E r out False (world m) = (res, world m')"
    | (logged) e where "world m' = emit (LogError e) (world m)"
    by blast
  then show ?thesis
  proof cases
    case same
    with keep ex lg show ?thesis by simp
  next
    case (listing c x)
    from GetRequests_eq [of E c "world m"] listing
    have "dirs (world m') = dirs (world m)" "files (world m') = files (world m)"
      "set (events (world m')) \<subseteq> set (events (world m)) \<union>
         {HttpDo (if c \<noteq> [] then cursorPath c else requestsPath)}"
      by (auto split: if_splits)
    with keep ex lg show ?thesis by (fastforce simp: exists_at_def)
  next
    case (worked r res)
    note p = processRequest_second_run [OF worked]
    have a: "files (world m') p = Some b"
      if "files w1 p = Some b" "\<forall>i. p \<noteq> join E (recordDirOf E out i) ''metadata.json''" for p b
    proof -
      from keep that have "files (world m) p = Some b" by blast
      with p that(2) show ?thesis by blast
    qed
    have b: "exists_at (world m') p" if "exists_at w1 p" for p
      using ex p that by blast
    have c: "\<not> exists_at w1 (join E (recordDirOf E out j) n)"
      if "LogDownloadError n j e \<in> set (events (world m'))" for n j e
    proof -
      from p that have "LogDownloadError n j e \<in> set (events (world m)) \<or>
          \<not> exists_at (world m) (join E (recordDirOf E out j) n)" by blast
      with lg ex show ?thesis by blast
    qed
    from a b c show ?thesis by blast
  next
    case (logged e)
    with keep ex lg show ?thesis by simp
  qed
qed

lemma second_run_exec:
  assumes "exec E out False sched m = Some m'"
      and "\<forall>p b. files w1 p = Some b \<and> (\<forall>i. p \<noteq> join E (recordDirOf E out i) ''metadata.json'') \<longrightarrow>
                   files (world m) p = Some b"
      and "\<forall>p. exists_at w1 p \<longrightarrow> exists_at (world m) p"
      and "\<forall>n j e. LogDownloadError n j e \<in> set (events (world m)) \<longrightarrow>
                   \<not> exists_at w1 (join E (recordDirOf E out j) n)"
  shows "(\<forall>p b. files w1 p = Some b \<and> (\<forall>i. p \<noteq> join E (recordDirOf E out i) ''metadata.json'') \<longrightarrow>
            files (world m') p = Some b) \<and>
         (\<forall>p. exists_at w1 p \<longrightarrow> exists_at (world m') p) \<and>
         (\<forall>n j e. LogDownloadError n j e \<in> set (events (world m')) \<longrightarrow>
            \<not> exists_at w1 (join E (recordDirOf E out j) n))"
  using assms
proof (induction sched arbitrary: m)
  case Nil
  then show ?case by simp
next
  case (Cons a sched)
  from Cons.prems(1) obtain m1 where
    s: "step E out False a m = Some m1" "exec E out False sched m1 = Some m'"
    by (auto split: option.splits)
  from second_run_step [OF s(1) Cons.prems(2,3,4)] have
    "\<forall>p b. files w1 p = Some b \<and> (\<forall>i. p \<noteq> join E (recordDirOf E out i) ''metadata.json'') \<longrightarrow>
            files (world m1) p = Some b"
    "\<forall>p. exists_at w1 p \<longrightarrow> exists_at (world m1) p"
    "\<forall>n j e. LogDownloadError n j e \<in> set (events (world m1)) \<longrightarrow>
            \<not> exists_at w1 (join E (recordDirOf E out j) n)"
    by blast+
  from Cons.IH [OF s(2) this] show ?case .
qed

lemma run_overwrite_listed:
  "processRequest (env_std [fm]) r1 ''out'' True (emit (HttpDo requestsPath) empty_world) =
     (None, after_overwrite)"
  by (simp add: run_defs sim_defs after_overwrite_def fm_def)

lemma run_pipeline_overwrite:
  "exec (env_std [fm]) ''out'' True
     [Fetch, Hand 0, Process 0, CloseRequestsChan, Exit 0, CloseErrChan, Finish]
     (init 1 empty_world) = Some final_overwrite"
  by (simp add: machine_defs listing_std run_overwrite_listed final_overwrite_def)

lemma run_after_overwrite:
  "map_option (\<lambda>m. (mainDone m, files (world m) ''out/record_1/metadata.json'',
                      report (events (world m))))
     (exec (env_std [fm]) ''out'' False
        [Fetch, Hand 0, Process 0, CloseRequestsChan, Exit 0, CloseErrChan, Finish]
        (init 1 (world final_overwrite))) =
   Some (True, Some ''{meta}'', [])"
  by (simp add: machine_defs run_defs sim_defs final_overwrite_def after_overwrite_def fm_def)

text \<open>
  C8, as stated, fails. A first run with \<open>-overwrite\<close> over a record whose attachment is
  named \<open>metadata.json\<close> ends with the attachment's bytes \<open>AAA\<close> in
  \<open>out/record_1/metadata.json\<close>: the attachment is downloaded over the metadata written
  just before. The second run, with skip-existing, writes the metadata over it: the
  attachment file of the first run is not left unchanged.
\<close>

theorem C8_attachment_named_metadata_json:
  "exec (env_std [fm]) ''out'' True
     [Fetch, Hand 0, Process 0, CloseRequestsChan, Exit 0, CloseErrChan, Finish]
     (init 1 empty_world) = Some final_overwrite \<and>
   mainDone final_overwrite \<and>
   files (world final_overwrite) ''out/record_1/metadata.json'' = Some ''AAA'' \<and>
   map_option (\<lambda>m. (mainDone m, files (world m) ''out/record_1/metadata.json'',
                      report (events (world m))))
     (exec (env_std [fm]) ''out'' False
        [Fetch, Hand 0, Process 0, CloseRequestsChan, Exit 0, CloseErrChan, Finish]
        (init 1 (world final_overwrite))) =
   Some (True, Some ''{meta}'', [])"
  by (intro conjI, rule run_pipeline_overwrite, simp add: final_overwrite_def,
      simp add: final_overwrite_def after_overwrite_def, rule run_after_overwrite)

text \<open>
  C8, amended: let a first run end in the world \<open>world m1\<close>, and let a second run over
  the same output root, with the skip-existing policy, reach a state \<open>m2\<close>. Then every
  file that existed after the first run and whose path is not that of the
  \<open>metadata.json\<close> of a record holds the same bytes in \<open>m2\<close>; every download error the
  second run has logged concerns a destination that did not exist after the first run, so
  none concerns a skipped attachment; and whenever a record is processed under
  skip-existing and neither the directory nor the metadata step fails, its
  \<open>metadata.json\<close> afterwards holds the document fetched by this very call, whatever the
  file held before, an attachment of that name included.
\<close>

theorem C8_second_run_skips_existing:
  assumes "exec E1 out overwrite1 sched1 (init k1 w0) = Some m1"
      and "exec E2 out False sched2 (init k2 (world m1)) = Some m2"
  shows "(\<forall>p b. files (world m1) p = Some b \<and>
                (\<forall>i. p \<noteq> join E2 (recordDirOf E2 out i) ''metadata.json'') \<longrightarrow>
            files (world m2) p = Some b) \<and>
         (\<forall>n i e. LogDownloadError n i e \<in> set (events (world m2)) \<longrightarrow>
            \<not> exists_at (world m1) (join E2 (recordDirOf E2 out i) n)) \<and>
         (\<forall>r w res w'. processRequest E2 r out False w = (res, w') \<and>
              (\<forall>e. res \<noteq> Some (ErrCreatingDirectory (ID r) e)) \<and>
              (\<forall>e. res \<noteq> Some (ErrSavingMetadata (ID r) e)) \<longrightarrow>
            (\<exists>req data. fst (GetRequestDetails E2 (ID r) w) = Inr req \<and>
               marshalIndent E2 req = Inr data \<and>
               files w' (join E2 (recordDirOf E2 out (ID r)) ''metadata.json'') = Some data))"
proof -
  have "(\<forall>p b. files (world m1) p = Some b \<and>
                (\<forall>i. p \<noteq> join E2 (recordDirOf E2 out i) ''metadata.json'') \<longrightarrow>
            files (world m2) p = Some b) \<and>
         (\<forall>p. exists_at (world m1) p \<longrightarrow> exists_at (world m2) p) \<and>
         (\<forall>n j e. LogDownloadError n j e \<in> set (events (world m2)) \<longrightarrow>
            \<not> exists_at (world m1) (join E2 (recordDirOf E2 out j) n))"
    by (rule second_run_exec [OF assms(2)]) (simp_all add: init_def exists_at_def)
  with processRequest_metadata [of E2 _ out] show ?thesis by blast
qed


lemma run_second:
  "map_option (\<lambda>m. (mainDone m, files (world m) ''out/record_1/b.bin''))
     (exec env_later ''out'' False
        [Fetch, Hand 0, Process 0, CloseRequestsChan, Exit 0, CloseErrChan, Finish]
        (init 1 (world final_three))) =
   Some (True, Some ''BBB'')"
  by (simp add: machine_defs run_defs sim_defs env_later_def final_three_def after_three_def)

theorem C8_second_run_skips_existing_witness:
  "(\<exists>m2. exec env_later ''out'' False
            [Fetch, Hand 0, Process 0, CloseRequestsChan, Exit 0, CloseErrChan, Finish]
            (init 1 (world final_three)) = Some m2 \<and>
         mainDone m2 \<and>
         files (world m2) ''out/record_1/a.bin'' = Some ''AAA'' \<and>
         files (world m2) ''out/record_1/c.bin'' = Some ''CCC'' \<and>
         files (world m2) ''out/record_1/b.bin'' = Some ''BBB'') \<and>
   files (snd (processRequest env_later r1 ''out'' False after_three))
     ''out/record_1/metadata.json'' = Some ''{meta v2}''"
proof -
  from run_second obtain m2 where
    m2: "exec env_later ''out'' False
           [Fetch, Hand 0, Process 0, CloseRequestsChan, Exit 0, CloseErrChan, Finish]
           (init 1 (world final_three)) = Some m2"
      "mainDone m2" "files (world m2) ''out/record_1/b.bin'' = Some ''BBB''"
    by auto
  note T = C8_second_run_skips_existing [OF run_pipeline_three m2(1)]
  have meta: "join env_later (recordDirOf env_later ''out'' i) ''metadata.json'' =
      ''out/record_'' @ itoa env_later i @ ''/metadata.json''" for i
    by (simp add: recordDirOf_def env_later_def sim_env_def plain_join_def)
  have na: "\<forall>i. ''out/record_1/a.bin'' \<noteq> join env_later (recordDirOf env_later ''out'' i) ''metadata.json''"
    and nc: "\<forall>i. ''out/record_1/c.bin'' \<noteq> join env_later (recordDirOf env_later ''out'' i) ''metadata.json''"
    unfolding meta by (simp_all add: env_later_def sim_env_def)
  have "files (world final_three) ''out/record_1/a.bin'' = Some ''AAA''"
    "files (world final_three) ''out/record_1/c.bin'' = Some ''CCC''"
    by (simp_all add: final_three_def after_three_def)
  with T na nc have ac: "files (world m2) ''out/record_1/a.bin'' = Some ''AAA''"
    "files (world m2) ''out/record_1/c.bin'' = Some ''CCC''"
    by blast+
  have res: "fst (processRequest env_later r1 ''out'' False after_three) = None"
    by (simp add: run_defs sim_defs env_later_def after_three_def)
  have det: "fst (GetRequestDetails env_later (ID r1) after_three) =
      Inr \<lparr>ID = 0, Title = [], Rest = ''{meta v2}''\<rparr>"
    by (simp add: run_defs sim_defs env_later_def)
  have mar: "marshalIndent env_later x = Inr (Rest x)" for x
    by (simp add: env_later_def sim_env_def)
  have p: "join env_later (recordDirOf env_later ''out'' (ID r1)) ''metadata.json'' =
      ''out/record_1/metadata.json''"
    unfolding meta by (simp add: env_later_def sim_env_def r1_def)
  from T have "\<exists>req data. fst (GetRequestDetails env_later (ID r1) after_three) = Inr req \<and>
      marshalIndent env_later req = Inr data \<and>
      files (snd (processRequest env_later r1 ''out'' False after_three))
        (join env_later (recordDirOf env_later ''out'' (ID r1)) ''metadata.json'') = Some data"
    using res prod.collapse [of "processRequest env_later r1 ''out'' False after_three"]
    by (metis option.distinct(1))
  with det mar p have "files (snd (processRequest env_later r1 ''out'' False after_three))
     ''out/record_1/metadata.json'' = Some ''{meta v2}''"
    by auto
  with m2 ac show ?thesis by blast
qed

end
